theory Spec2Isabelle
  imports Complex_Main "HOL-Library.Multiset"
begin

section \<open>Data model (types/index.ts)\<close>

text \<open>
  The hybrid flow-shop applet: a discrete-event simulator (simulationCore.ts), its
  event queue (PriorityQueue.ts) and the genetic optimizer (gaWorker.ts).

  A TypeScript \<open>number\<close> that carries a time or a rate is a \<open>real\<close> (the rounding
  of doubles is not modelled); a \<open>number\<close> that is an identifier (job id, machine id,
  family) is an \<open>int\<close>. A slot of a JavaScript array of ids can hold \<open>undefined\<close>
  (an out-of-range read yields it, an out-of-range write extends the array), so a
  sequence of job ids is an \<open>int option list\<close> with \<open>None\<close> for \<open>undefined\<close>.
  Field names are those of the source, prefixed where two interfaces share a name.
\<close>

datatype stage = Stage1 | Stage2

datatype setupType = SetupNone | SetupMinor | SetupMajor | SetupAoi

datatype eventType =
  SETUP_START | SETUP_END | JOB_START | JOB_END | STAGE1_COMPLETE | SIMULATION_END

datatype error = TypeError | Diverges

record Job =
  j_id :: int
  dueDate :: real
  family :: int
  t_smd :: real
  t_aoi :: real

record Machine =
  m_id :: int
  m_stage :: stage
  currentSetupKit :: "int option"
  m_availableAt :: real
  currentJob :: "int option"

record SetupKit =
  k_family :: int
  currentMachine :: "int option"
  inTransit :: bool
  k_availableAt :: real

record ScheduledJob =
  jobId :: int
  machineId :: int
  sj_stage :: stage
  startTime :: real
  endTime :: real
  setupTime :: real
  setupType :: setupType
  setupStartTime :: "real option"
  processingTime :: real
  sj_family :: int
  isLate :: bool
  tardiness :: real

record Schedule =
  jobs :: "ScheduledJob list"
  makespan :: real
  totalTardiness :: real
  averageTardiness :: real
  setupCount :: nat
  minorSetupCount :: nat
  majorSetupCount :: nat
  aoiSetupCount :: nat
  utilization_stage1 :: real
  utilization_stage2 :: real

record SimulationEvent =
  e_type :: eventType
  e_time :: real
  e_jobId :: "int option"
  e_machineId :: "int option"
  e_stage :: "stage option"

record SimulationState =
  currentTime :: real
  machines :: "Machine list"
  setupKits :: "int \<rightharpoonup> SetupKit"
  stage1Queue :: "int option list"
  stage2Queue :: "int option list"
  completedJobs :: "ScheduledJob list"
  jobsMap :: "int \<rightharpoonup> Job"

section \<open>Event queue (PriorityQueue.ts)\<close>

text \<open>
  \<open>items\<close> is the private array. \<open>push\<close> appends and re-sorts with the comparator
  \<open>a.time - b.time\<close>; \<open>Array.prototype.sort\<close> is stable, and \<open>sort_key\<close> is the
  stable sort by a key. \<open>pop\<close> is \<open>shift\<close>: the first item, or \<open>undefined\<close>
  (\<open>None\<close>) on an empty array.
\<close>

type_synonym PriorityQueue = "SimulationEvent list"

definition push :: "SimulationEvent \<Rightarrow> PriorityQueue \<Rightarrow> PriorityQueue" where
  "push item items = sort_key e_time (items @ [item])"

definition pop :: "PriorityQueue \<Rightarrow> SimulationEvent option \<times> PriorityQueue" where
  "pop items = (case items of [] \<Rightarrow> (None, []) | x # rest \<Rightarrow> (Some x, rest))"

definition isEmpty :: "PriorityQueue \<Rightarrow> bool" where
  "isEmpty items = (length items = 0)"

section \<open>Simulation engine (simulationCore.ts)\<close>

definition SETUP_TIME_SMD_MINOR :: real where "SETUP_TIME_SMD_MINOR = 20"
definition SETUP_TIME_SMD_MAJOR :: real where "SETUP_TIME_SMD_MAJOR = 65"
definition SETUP_TIME_AOI :: real where "SETUP_TIME_AOI = 25"
definition STAGE1_MACHINES :: nat where "STAGE1_MACHINES = 4"
definition STAGE2_MACHINES :: nat where "STAGE2_MACHINES = 5"

definition newMachine :: "int \<Rightarrow> stage \<Rightarrow> Machine" where
  "newMachine i st =
     \<lparr>m_id = i, m_stage = st, currentSetupKit = None, m_availableAt = 0, currentJob = None\<rparr>"

definition newKit :: "int \<Rightarrow> SetupKit" where
  "newKit f = \<lparr>k_family = f, currentMachine = None, inTransit = False, k_availableAt = 0\<rparr>"

text \<open>
  \<open>initializeState\<close>: machines 1..4 of stage 1, then 5..9 of stage 2; one kit per
  family of the job list; \<open>new Map(jobs.map(j => [j.id, j]))\<close> keeps the last job of
  a repeated id, which \<open>map_of\<close> on the reversed list does.
\<close>

definition initializeState :: "Job list \<Rightarrow> int option list \<Rightarrow> SimulationState" where
  "initializeState js jobSequence =
     \<lparr>currentTime = 0,
      machines = map (\<lambda>i. newMachine (int i) Stage1) [1..<Suc STAGE1_MACHINES]
               @ map (\<lambda>i. newMachine (int (STAGE1_MACHINES + i)) Stage2) [1..<Suc STAGE2_MACHINES],
      setupKits = map_of (map (\<lambda>j. (family j, newKit (family j))) js),
      stage1Queue = jobSequence,
      stage2Queue = [],
      completedJobs = [],
      jobsMap = map_of (rev (map (\<lambda>j. (j_id j, j)) js))\<rparr>"

text \<open>\<open>jobsMap.get(jobId)\<close>: no job has the id \<open>undefined\<close>.\<close>

definition getJob :: "(int \<rightharpoonup> Job) \<Rightarrow> int option \<Rightarrow> Job option" where
  "getJob m g = (case g of None \<Rightarrow> None | Some i \<Rightarrow> m i)"

text \<open>
  Objects of \<open>state.machines\<close> are mutated through references; a reference is the
  index of the object in the array. \<open>findIndex p xs\<close> is the position of the object
  that \<open>xs.find(p)\<close> returns.
\<close>

fun findIndex :: "('a \<Rightarrow> bool) \<Rightarrow> 'a list \<Rightarrow> nat option" where
  "findIndex p [] = None"
| "findIndex p (x # xs) =
     (if p x then Some 0 else (case findIndex p xs of None \<Rightarrow> None | Some i \<Rightarrow> Some (Suc i)))"

definition stageIndices :: "stage \<Rightarrow> Machine list \<Rightarrow> nat list" where
  "stageIndices st ms = filter (\<lambda>i. m_stage (ms ! i) = st) [0..<length ms]"

text \<open>
  The body of the \<open>for\<close> loop over the stage-1 machines, up to the \<open>continue\<close>:
  the setup time charged on a machine, \<open>None\<close> when the machine is skipped.
\<close>

definition stage1SetupTime :: "Job \<Rightarrow> SetupKit \<Rightarrow> Machine \<Rightarrow> real option" where
  "stage1SetupTime job kit machine =
     (if currentSetupKit machine = Some (family job) then Some SETUP_TIME_SMD_MINOR
      else if currentMachine kit \<noteq> None \<and> currentMachine kit \<noteq> Some (m_id machine) then None
      else Some SETUP_TIME_SMD_MAJOR)"

definition stage1JobStart :: "SimulationState \<Rightarrow> SetupKit \<Rightarrow> Machine \<Rightarrow> real \<Rightarrow> real" where
  "stage1JobStart s kit machine setupT =
     max (max (currentTime s) (m_availableAt machine)) (k_availableAt kit) + setupT"

text \<open>
  The loop variables \<open>bestMachine\<close>, \<open>bestStartTime\<close> (\<open>None\<close> is \<open>Infinity\<close>),
  \<open>setupRequired\<close> and \<open>bestSetupTime\<close>.
\<close>

record Best =
  bestMachine :: "nat option"
  bestStartTime :: "real option"
  setupRequired :: bool
  bestSetupTime :: real

definition noBest :: Best where
  "noBest = \<lparr>bestMachine = None, bestStartTime = None, setupRequired = False, bestSetupTime = 0\<rparr>"

definition lessBest :: "real \<Rightarrow> real option \<Rightarrow> bool" where
  "lessBest t b = (case b of None \<Rightarrow> True | Some t' \<Rightarrow> t < t')"

fun scanMachines :: "SimulationState \<Rightarrow> Job \<Rightarrow> SetupKit \<Rightarrow> nat list \<Rightarrow> Best \<Rightarrow> Best" where
  "scanMachines s job kit [] b = b"
| "scanMachines s job kit (i # rest) b =
     (case stage1SetupTime job kit (machines s ! i) of
        None \<Rightarrow> scanMachines s job kit rest b
      | Some setupT \<Rightarrow>
          (let jobStartTime = stage1JobStart s kit (machines s ! i) setupT
           in if lessBest jobStartTime (bestStartTime b)
              then scanMachines s job kit rest
                     \<lparr>bestMachine = Some i, bestStartTime = Some jobStartTime,
                      setupRequired = True, bestSetupTime = setupT\<rparr>
              else scanMachines s job kit rest b))"

text \<open>
  The writes to \<open>state.machines\<close> of an assignment, in the source's order:
  \<open>bestMachine.currentJob\<close> and \<open>availableAt\<close>; if the kit is on another machine,
  the \<open>currentSetupKit\<close> of the machine that \<open>find\<close> returns is set to \<open>null\<close>;
  \<open>bestMachine.currentSetupKit\<close>.
\<close>

definition mountKit :: "Machine list \<Rightarrow> nat \<Rightarrow> int \<Rightarrow> real \<Rightarrow> SetupKit \<Rightarrow> int \<Rightarrow> Machine list" where
  "mountKit ms bi jid jobEndTime kit fam =
     (let best = ms ! bi;
          ms1 = ms[bi := best\<lparr>currentJob := Some jid, m_availableAt := jobEndTime\<rparr>];
          ms2 = (if currentMachine kit \<noteq> None \<and> currentMachine kit \<noteq> Some (m_id best)
                 then (case findIndex (\<lambda>m. Some (m_id m) = currentMachine kit) ms1 of
                         None \<Rightarrow> ms1
                       | Some oi \<Rightarrow> ms1[oi := (ms1 ! oi)\<lparr>currentSetupKit := None\<rparr>])
                 else ms1)
      in ms2[bi := (ms2 ! bi)\<lparr>currentSetupKit := Some fam\<rparr>])"

text \<open>The \<open>if (bestMachine)\<close> branch: the assignment of the head job to machine \<open>bi\<close>.\<close>

definition assignStage1 ::
  "SimulationState \<times> PriorityQueue \<Rightarrow> int \<Rightarrow> Job \<Rightarrow> SetupKit \<Rightarrow> Best \<Rightarrow> nat
     \<Rightarrow> SimulationState \<times> PriorityQueue" where
  "assignStage1 sq jid job kit b bi =
     (let s = fst sq; eventQueue = snd sq;
          best = machines s ! bi;
          setupStart = (if setupRequired b
                        then max (max (currentTime s) (m_availableAt best)) (k_availableAt kit)
                        else max (currentTime s) (m_availableAt best));
          jobStartTime = (if setupRequired b then setupStart + bestSetupTime b else setupStart);
          jobEndTime = jobStartTime + t_smd job;
          kit' = kit\<lparr>currentMachine := Some (m_id best), k_availableAt := jobEndTime\<rparr>;
          ev = \<lparr>e_type = STAGE1_COMPLETE, e_time = jobEndTime, e_jobId = Some jid,
                e_machineId = Some (m_id best), e_stage = Some Stage1\<rparr>;
          rec = \<lparr>jobId = jid, machineId = m_id best, sj_stage = Stage1,
                 startTime = jobStartTime, endTime = jobEndTime,
                 setupTime = (if setupRequired b then bestSetupTime b else 0),
                 setupType = (if setupRequired b
                              then (if bestSetupTime b = SETUP_TIME_SMD_MAJOR
                                    then SetupMajor else SetupMinor)
                              else SetupNone),
                 setupStartTime = (if setupRequired b then Some setupStart else None),
                 processingTime = t_smd job, sj_family = family job,
                 isLate = False, tardiness = 0\<rparr>
      in (s\<lparr>stage1Queue := tl (stage1Queue s),
            machines := mountKit (machines s) bi jid jobEndTime kit (family job),
            setupKits := (setupKits s)(family job \<mapsto> kit'),
            completedJobs := completedJobs s @ [rec]\<rparr>,
          push ev eventQueue))"

text \<open>
  One pass of the \<open>while\<close> loop of \<open>tryAssignStage1Jobs\<close>, entered with a non-empty
  queue: \<open>None\<close> when the pass assigns nothing (the two \<open>continue\<close>s, taken with
  \<open>assigned = false\<close>, and the \<open>break\<close> all leave the loop with the state as it
  was), otherwise the state after the assignment.
\<close>

definition stage1Step ::
  "SimulationState \<times> PriorityQueue \<Rightarrow> (SimulationState \<times> PriorityQueue) option" where
  "stage1Step sq =
     (let s = fst sq in
      case stage1Queue s of
        [] \<Rightarrow> None
      | g # rest \<Rightarrow>
         (case getJob (jobsMap s) g of
            None \<Rightarrow> None
          | Some job \<Rightarrow>
             (case setupKits s (family job) of
                None \<Rightarrow> None
              | Some kit \<Rightarrow>
                 (let b = scanMachines s job kit (stageIndices Stage1 (machines s)) noBest
                  in case bestMachine b of
                       None \<Rightarrow> None
                     | Some bi \<Rightarrow> Some (assignStage1 sq (the g) job kit b bi)))))"

function tryAssignStage1Jobs ::
  "SimulationState \<times> PriorityQueue \<Rightarrow> SimulationState \<times> PriorityQueue" where
  "tryAssignStage1Jobs sq =
     (case stage1Step sq of None \<Rightarrow> sq | Some sq' \<Rightarrow> tryAssignStage1Jobs sq')"
  by pat_completeness auto
termination
  by (relation "measure (\<lambda>sq. length (stage1Queue (fst sq)))")
     (auto simp: stage1Step_def assignStage1_def Let_def split: list.splits option.splits)

declare tryAssignStage1Jobs.simps [simp del]

text \<open>
  \<open>stage2Machines.reduce(...)\<close> without an initial value: the first machine with the
  smallest \<open>availableAt\<close>; on an empty array \<open>reduce\<close> throws a TypeError.
\<close>

definition earliestMachine :: "Machine list \<Rightarrow> nat list \<Rightarrow> error + nat" where
  "earliestMachine ms is =
     (case is of
        [] \<Rightarrow> Inl TypeError
      | i # rest \<Rightarrow>
          Inr (fold (\<lambda>current best.
                 if m_availableAt (ms ! current) < m_availableAt (ms ! best) then current else best)
               rest i))"

definition assignStage2 ::
  "SimulationState \<times> PriorityQueue \<Rightarrow> int \<Rightarrow> Job \<Rightarrow> nat \<Rightarrow> ScheduledJob
     \<Rightarrow> SimulationState \<times> PriorityQueue" where
  "assignStage2 sq jid job bi stage1Job =
     (let s = fst sq; eventQueue = snd sq;
          best = machines s ! bi;
          setupStart = max (max (endTime stage1Job) (m_availableAt best)) (currentTime s);
          jobStartTime = setupStart + SETUP_TIME_AOI;
          jobEndTime = jobStartTime + t_aoi job;
          ev = \<lparr>e_type = SIMULATION_END, e_time = jobEndTime, e_jobId = Some jid,
                e_machineId = Some (m_id best), e_stage = Some Stage2\<rparr>;
          tard = max 0 (jobEndTime - dueDate job);
          rec = \<lparr>jobId = jid, machineId = m_id best, sj_stage = Stage2,
                 startTime = jobStartTime, endTime = jobEndTime,
                 setupTime = SETUP_TIME_AOI, setupType = SetupAoi,
                 setupStartTime = Some setupStart,
                 processingTime = t_aoi job, sj_family = family job,
                 isLate = (tard > 0), tardiness = tard\<rparr>
      in (s\<lparr>stage2Queue := tl (stage2Queue s),
            machines := (machines s)[bi := best\<lparr>currentJob := Some jid, m_availableAt := jobEndTime\<rparr>],
            completedJobs := completedJobs s @ [rec]\<rparr>,
          push ev eventQueue))"

text \<open>
  One pass of the \<open>while\<close> loop of \<open>tryAssignStage2Jobs\<close>: \<open>Inr None\<close> when the
  pass leaves the loop without an assignment (a \<open>continue\<close> with
  \<open>assigned = false\<close>), \<open>Inl\<close> when \<open>reduce\<close> throws.
\<close>

definition stage2Step ::
  "SimulationState \<times> PriorityQueue \<Rightarrow> error + (SimulationState \<times> PriorityQueue) option" where
  "stage2Step sq =
     (let s = fst sq in
      case stage2Queue s of
        [] \<Rightarrow> Inr None
      | g # rest \<Rightarrow>
         (case getJob (jobsMap s) g of
            None \<Rightarrow> Inr None
          | Some job \<Rightarrow>
             (case earliestMachine (machines s) (stageIndices Stage2 (machines s)) of
                Inl e \<Rightarrow> Inl e
              | Inr bi \<Rightarrow>
                 (case find (\<lambda>sj. jobId sj = the g \<and> sj_stage sj = Stage1) (completedJobs s) of
                    None \<Rightarrow> Inr None
                  | Some stage1Job \<Rightarrow> Inr (Some (assignStage2 sq (the g) job bi stage1Job))))))"

function tryAssignStage2Jobs ::
  "SimulationState \<times> PriorityQueue \<Rightarrow> error + SimulationState \<times> PriorityQueue" where
  "tryAssignStage2Jobs sq =
     (case stage2Step sq of
        Inl e \<Rightarrow> Inl e
      | Inr None \<Rightarrow> Inr sq
      | Inr (Some sq') \<Rightarrow> tryAssignStage2Jobs sq')"
  by pat_completeness auto
termination
  by (relation "measure (\<lambda>sq. length (stage2Queue (fst sq)))")
     (auto simp: stage2Step_def assignStage2_def Let_def
           split: list.splits option.splits sum.splits)

declare tryAssignStage2Jobs.simps [simp del]

text \<open>\<open>machine.currentJob = null\<close> on the machine that \<open>find\<close> returns, if any.\<close>

definition clearCurrentJob :: "int option \<Rightarrow> Machine list \<Rightarrow> Machine list" where
  "clearCurrentJob mid ms =
     (case findIndex (\<lambda>m. Some (m_id m) = mid) ms of
        None \<Rightarrow> ms
      | Some i \<Rightarrow> ms[i := (ms ! i)\<lparr>currentJob := None\<rparr>])"

definition processEvent ::
  "SimulationEvent \<Rightarrow> SimulationState \<times> PriorityQueue
     \<Rightarrow> error + SimulationState \<times> PriorityQueue" where
  "processEvent event sq =
     (let s = (fst sq)\<lparr>currentTime := e_time event\<rparr>; eventQueue = snd sq in
      case e_type event of
        STAGE1_COMPLETE \<Rightarrow>
          tryAssignStage2Jobs
            (s\<lparr>machines := clearCurrentJob (e_machineId event) (machines s),
               stage2Queue := stage2Queue s @ [e_jobId event]\<rparr>, eventQueue)
      | SIMULATION_END \<Rightarrow>
          Inr (s\<lparr>machines := clearCurrentJob (e_machineId event) (machines s)\<rparr>, eventQueue)
      | _ \<Rightarrow> Inr (s, eventQueue))"

text \<open>
  The main loop of \<open>runSimulation\<close>. Its first argument is the number of passes
  still allowed, \<open>maxIterations - iterations\<close>; the loop ends when the event queue is
  empty or no pass is left, and returns the number of passes left with the state.
\<close>

definition maxIterations :: nat where "maxIterations = 10000"

fun mainLoop ::
  "nat \<Rightarrow> SimulationState \<times> PriorityQueue
     \<Rightarrow> error + nat \<times> SimulationState \<times> PriorityQueue" where
  "mainLoop 0 sq = Inr (0, sq)"
| "mainLoop (Suc n) sq =
     (if isEmpty (snd sq) then Inr (Suc n, sq)
      else (case pop (snd sq) of
              (None, _) \<Rightarrow> Inr (Suc n, sq)
            | (Some event, eventQueue) \<Rightarrow>
                (case processEvent event (fst sq, eventQueue) of
                   Inl e \<Rightarrow> Inl e
                 | Inr sq' \<Rightarrow> mainLoop n (tryAssignStage1Jobs sq'))))"

definition simulate ::
  "nat \<Rightarrow> Job list \<Rightarrow> int option list
     \<Rightarrow> error + nat \<times> SimulationState \<times> PriorityQueue" where
  "simulate n js jobSequence =
     mainLoop n (tryAssignStage1Jobs (initializeState js jobSequence, []))"

text \<open>
  \<open>if (iterations >= maxIterations) console.warn(...)\<close>: the warning is logged
  exactly when no pass is left.
\<close>

definition warnsMaxIterations :: "Job list \<Rightarrow> int option list \<Rightarrow> bool" where
  "warnsMaxIterations js jobSequence =
     (case simulate maxIterations js jobSequence of
        Inl e \<Rightarrow> False
      | Inr (left, sq) \<Rightarrow> left = 0)"

text \<open>
  The final schedule. \<open>Math.max(...ends, 0)\<close> is the largest of the end times and 0;
  \<open>reduce\<close> with the initial value 0 is a sum.
\<close>

definition buildSchedule :: "SimulationState \<Rightarrow> Schedule" where
  "buildSchedule s =
     (let cj = completedJobs s;
          mk = fold max (map endTime cj) 0;
          stage2Jobs = filter (\<lambda>sj. sj_stage sj = Stage2) cj;
          total = sum_list (map tardiness stage2Jobs);
          stage1Total = sum_list (map (\<lambda>sj. processingTime sj + setupTime sj)
                                   (filter (\<lambda>sj. sj_stage sj = Stage1) cj));
          stage2Total = sum_list (map (\<lambda>sj. processingTime sj + setupTime sj)
                                   (filter (\<lambda>sj. sj_stage sj = Stage2) cj))
      in \<lparr>jobs = cj,
          makespan = mk,
          totalTardiness = total,
          averageTardiness = (if length stage2Jobs > 0 then total / real (length stage2Jobs) else 0),
          setupCount = length (filter (\<lambda>sj. setupTime sj > 0) cj),
          minorSetupCount = length (filter (\<lambda>sj. setupType sj = SetupMinor) cj),
          majorSetupCount = length (filter (\<lambda>sj. setupType sj = SetupMajor) cj),
          aoiSetupCount = length (filter (\<lambda>sj. setupType sj = SetupAoi) cj),
          utilization_stage1 = (if mk > 0 then stage1Total / (mk * real STAGE1_MACHINES) else 0),
          utilization_stage2 = (if mk > 0 then stage2Total / (mk * real STAGE2_MACHINES) else 0)\<rparr>)"

definition runSimulation :: "Job list \<Rightarrow> int option list \<Rightarrow> error + Schedule" where
  "runSimulation js jobSequence =
     (case simulate maxIterations js jobSequence of
        Inl e \<Rightarrow> Inl e
      | Inr (left, sq) \<Rightarrow> Inr (buildSchedule (fst sq)))"

text \<open>
  The table \<open>priority\<close> of \<open>extractEventTimeline\<close>, which orders the events of a
  finished schedule by time and then by type; \<open>JOB_END\<close> has no entry.
\<close>

fun priority :: "eventType \<Rightarrow> nat option" where
  "priority SETUP_START = Some 1"
| "priority SETUP_END = Some 2"
| "priority JOB_START = Some 3"
| "priority STAGE1_COMPLETE = Some 4"
| "priority SIMULATION_END = Some 5"
| "priority JOB_END = None"

section \<open>Genetic optimizer (gaWorker.ts)\<close>

subsection \<open>JavaScript arrays and random indices\<close>

text \<open>
  Reading an array out of range yields \<open>undefined\<close>; writing at an index beyond the
  end extends the array, the slots in between reading as \<open>undefined\<close>.
  \<open>Math.floor(Math.random() * n)\<close> is \<open>randomIndex r n\<close> for the number \<open>r\<close> that
  \<open>Math.random()\<close> returned, \<open>0 \<le> r < 1\<close>.
\<close>

definition jsGet :: "'a option list \<Rightarrow> nat \<Rightarrow> 'a option" where
  "jsGet xs i = (if i < length xs then xs ! i else None)"

definition jsSet :: "'a option list \<Rightarrow> nat \<Rightarrow> 'a option \<Rightarrow> 'a option list" where
  "jsSet xs i v =
     (if i < length xs then xs[i := v] else xs @ replicate (i - length xs) None @ [v])"

definition randomIndex :: "real \<Rightarrow> nat \<Rightarrow> nat" where
  "randomIndex r n = nat \<lfloor>r * real n\<rfloor>"

subsection \<open>Fitness\<close>

record Evaluation =
  ev_fitness :: real
  ev_makespan :: real
  ev_totalTardiness :: real

definition evaluateFitness :: "Job list \<Rightarrow> int option list \<Rightarrow> real \<Rightarrow> error + Evaluation" where
  "evaluateFitness js sequence weight =
     (case runSimulation js sequence of
        Inl e \<Rightarrow> Inl e
      | Inr schedule \<Rightarrow>
          (let MAKESPAN_SCALE = 1; TARDINESS_SCALE = 1;
               makespanWeight = 1 - weight; tardinessWeight = weight;
               normalizedMakespan = makespan schedule / MAKESPAN_SCALE;
               normalizedTardiness = totalTardiness schedule / TARDINESS_SCALE
           in Inr \<lparr>ev_fitness = makespanWeight * normalizedMakespan
                                   + tardinessWeight * normalizedTardiness,
                    ev_makespan = makespan schedule,
                    ev_totalTardiness = totalTardiness schedule\<rparr>))"

subsection \<open>Crossover and mutation\<close>

text \<open>
  \<open>orderCrossover\<close>. The child starts as \<open>size\<close> copies of the marker \<open>-1\<close>; the
  \<open>for\<close> loop copies \<open>parent1[start..end]\<close>; the \<open>while\<close> loop runs as long as the
  child holds a \<open>-1\<close> and has no other exit, so it is a partial function: \<open>None\<close>
  is a loop that never ends. With \<open>size = 0\<close> the source computes \<open>NaN\<close> for both
  indices, but then the child is \<open>[undefined]\<close> and the loop is not entered.
\<close>

definition copySegment ::
  "int option list \<Rightarrow> nat \<Rightarrow> nat \<Rightarrow> int option list \<Rightarrow> int option list" where
  "copySegment parent1 start endIdx child =
     fold (\<lambda>i c. jsSet c i (jsGet parent1 i)) [start..<Suc endIdx] child"

partial_function (option) fillFromParent2 ::
  "int option list \<Rightarrow> nat \<Rightarrow> int option list \<Rightarrow> nat \<Rightarrow> nat \<Rightarrow> int option list option" where
  "fillFromParent2 parent2 sz child childIndex parent2Index =
     (if Some (- 1) \<in> set child
      then (if jsGet parent2 parent2Index \<notin> set child
            then fillFromParent2 parent2 sz
                   (jsSet child childIndex (jsGet parent2 parent2Index))
                   ((childIndex + 1) mod sz) ((parent2Index + 1) mod sz)
            else fillFromParent2 parent2 sz child childIndex ((parent2Index + 1) mod sz))
      else Some child)"

declare fillFromParent2.simps [code]

definition orderCrossoverAt ::
  "int option list \<Rightarrow> int option list \<Rightarrow> nat \<Rightarrow> nat \<Rightarrow> int option list option" where
  "orderCrossoverAt parent1 parent2 start endIdx =
     (let sz = length parent1;
          child = copySegment parent1 start endIdx (replicate sz (Some (- 1)))
      in fillFromParent2 parent2 sz child ((endIdx + 1) mod sz) ((endIdx + 1) mod sz))"

definition orderCrossover ::
  "int option list \<Rightarrow> int option list \<Rightarrow> real \<Rightarrow> real \<Rightarrow> int option list option" where
  "orderCrossover parent1 parent2 r1 r2 =
     (let sz = length parent1;
          start = randomIndex r1 sz;
          endIdx = randomIndex r2 (sz - start) + start
      in orderCrossoverAt parent1 parent2 start endIdx)"

text \<open>
  \<open>[mutated[i], mutated[j]] = [mutated[j], mutated[i]]\<close> reads both slots, then
  writes slot \<open>i\<close>, then slot \<open>j\<close>.
\<close>

definition swapMutation :: "int option list \<Rightarrow> real \<Rightarrow> real \<Rightarrow> int option list" where
  "swapMutation chromosome r1 r2 =
     (let i = randomIndex r1 (length chromosome);
          j = randomIndex r2 (length chromosome);
          a = jsGet chromosome j; b = jsGet chromosome i
      in jsSet (jsSet chromosome i a) j b)"

text \<open>
  \<open>splice(i, 1)[0]\<close> removes and returns the gene at \<open>i\<close> (\<open>undefined\<close> when there
  is none); \<open>splice(j, 0, gene)\<close> inserts it at \<open>j\<close>, or at the end when \<open>j\<close> is
  beyond it.
\<close>

definition insertMutation :: "int option list \<Rightarrow> real \<Rightarrow> real \<Rightarrow> int option list" where
  "insertMutation chromosome r1 r2 =
     (let i = randomIndex r1 (length chromosome);
          j = randomIndex r2 (length chromosome);
          gene = jsGet chromosome i;
          removed = take i chromosome @ drop (Suc i) chromosome;
          k = min j (length removed)
      in take k removed @ [gene] @ drop k removed)"

subsection \<open>The optimizer's population\<close>

datatype mutationMethod = Swap | Insert

record GAConfig =
  populationSize :: int
  generations :: int
  tournamentSize :: int
  crossoverRate :: real
  mutationRate :: real
  mutationMethod :: mutationMethod
  elitismRate :: real
  tardinessWeight :: real
  useAdaptive :: bool
  adaptiveWindow :: int

record Individual =
  chromosome :: "int option list"
  fitness :: real
  i_makespan :: real
  i_totalTardiness :: real

text \<open>
  \<open>Math.random()\<close> is a stream of numbers: \<open>rnd k\<close> is the value of the \<open>k\<close>-th
  call, and a function that draws numbers returns the position of the next one.
\<close>

type_synonym rng = "nat \<Rightarrow> real"

definition individual :: "Job list \<Rightarrow> int option list \<Rightarrow> real \<Rightarrow> error + Individual" where
  "individual js c weight =
     (case evaluateFitness js c weight of
        Inl e \<Rightarrow> Inl e
      | Inr ev \<Rightarrow> Inr \<lparr>chromosome = c, fitness = ev_fitness ev,
                        i_makespan = ev_makespan ev, i_totalTardiness = ev_totalTardiness ev\<rparr>)"

text \<open>
  The Fisher-Yates shuffle of \<open>createInitialPopulation\<close>: for \<open>i\<close> from the last
  index down to 1, swap the slots \<open>i\<close> and \<open>floor(random * (i + 1))\<close>.
\<close>

fun shuffleFrom :: "nat \<Rightarrow> int option list \<Rightarrow> rng \<Rightarrow> nat \<Rightarrow> int option list \<times> nat" where
  "shuffleFrom 0 c rnd k = (c, k)"
| "shuffleFrom (Suc i) c rnd k =
     (let j = randomIndex (rnd k) (Suc i + 1);
          a = jsGet c j; b = jsGet c (Suc i)
      in shuffleFrom i (jsSet (jsSet c (Suc i) a) j b) rnd (Suc k))"

definition shuffle :: "int option list \<Rightarrow> rng \<Rightarrow> nat \<Rightarrow> int option list \<times> nat" where
  "shuffle c rnd k = shuffleFrom (length c - 1) c rnd k"

text \<open>
  The \<open>while (population.length < populationSize)\<close> loop; its first argument is the
  number of individuals still missing.
\<close>

fun randomIndividuals ::
  "nat \<Rightarrow> Job list \<Rightarrow> real \<Rightarrow> Individual list \<Rightarrow> rng \<Rightarrow> nat \<Rightarrow> error + Individual list \<times> nat" where
  "randomIndividuals 0 js weight population rnd k = Inr (population, k)"
| "randomIndividuals (Suc n) js weight population rnd k =
     (case shuffle (map (\<lambda>j. Some (j_id j)) js) rnd k of
        (c, k') \<Rightarrow>
          (case individual js c weight of
             Inl e \<Rightarrow> Inl e
           | Inr ind \<Rightarrow> randomIndividuals n js weight (population @ [ind]) rnd k'))"

definition createInitialPopulation ::
  "Job list \<Rightarrow> int \<Rightarrow> real \<Rightarrow> int option list option \<Rightarrow> rng \<Rightarrow> nat
     \<Rightarrow> error + Individual list \<times> nat" where
  "createInitialPopulation js popSize weight initialSequence rnd k =
     (case (case initialSequence of
              None \<Rightarrow> Inr []
            | Some c \<Rightarrow> (case individual js c weight of Inl e \<Rightarrow> Inl e | Inr ind \<Rightarrow> Inr [ind])) of
        Inl e \<Rightarrow> Inl e
      | Inr population \<Rightarrow>
          randomIndividuals (nat (popSize - int (length population))) js weight population rnd k)"

text \<open>
  \<open>tournamentSelection\<close>. A slot of the population can hold \<open>undefined\<close> (\<open>None\<close>);
  \<open>reduce\<close> throws on an empty tournament, and reading \<open>fitness\<close> of \<open>undefined\<close>
  throws.
\<close>

fun reduceFittest :: "Individual option \<Rightarrow> Individual option list \<Rightarrow> error + Individual option" where
  "reduceFittest best [] = Inr best"
| "reduceFittest best (current # rest) =
     (case (current, best) of
        (Some c, Some b) \<Rightarrow> reduceFittest (if fitness c < fitness b then Some c else Some b) rest
      | _ \<Rightarrow> Inl TypeError)"

definition tournamentSelection ::
  "Individual option list \<Rightarrow> int \<Rightarrow> rng \<Rightarrow> nat \<Rightarrow> error + Individual option \<times> nat" where
  "tournamentSelection population tSize rnd k =
     (let tournament = map (\<lambda>i. jsGet population (randomIndex (rnd (k + i)) (length population)))
                           [0..<nat tSize]
      in case tournament of
           [] \<Rightarrow> Inl TypeError
         | first # rest \<Rightarrow>
             (case reduceFittest first rest of
                Inl e \<Rightarrow> Inl e
              | Inr best \<Rightarrow> Inr (best, k + nat tSize)))"

text \<open>
  \<open>population.sort((a, b) => a.fitness - b.fitness)\<close>: a stable sort by fitness;
  \<open>sort\<close> moves \<open>undefined\<close> slots to the end without calling the comparator.
\<close>

definition sortPopulation :: "Individual option list \<Rightarrow> Individual option list" where
  "sortPopulation population =
     map Some (sort_key fitness (List.map_filter (\<lambda>x. x) population))
     @ filter (\<lambda>x. x = None) population"

definition eliteCount :: "GAConfig \<Rightarrow> int" where
  "eliteCount config = max 1 \<lfloor>real_of_int (populationSize config) * elitismRate config\<rfloor>"

text \<open>The elitism loop: \<open>newPopulation.push(population[i])\<close> for \<open>i < eliteCount\<close>.\<close>

definition elites :: "Individual option list \<Rightarrow> GAConfig \<Rightarrow> Individual option list" where
  "elites population config = map (jsGet population) [0..<nat (eliteCount config)]"

text \<open>
  One offspring: two tournaments, crossover with probability \<open>crossoverRate\<close> (else a
  copy of the first parent), mutation with probability \<open>rate\<close>, evaluation. Reading
  \<open>chromosome\<close> of an \<open>undefined\<close> parent throws; \<open>Diverges\<close> stands for a call of
  \<open>orderCrossover\<close> that never returns.
\<close>

definition makeOffspring ::
  "Job list \<Rightarrow> GAConfig \<Rightarrow> real \<Rightarrow> Individual option list \<Rightarrow> rng \<Rightarrow> nat
     \<Rightarrow> error + Individual \<times> nat" where
  "makeOffspring js config rate population rnd k =
     (case tournamentSelection population (tournamentSize config) rnd k of
        Inl e \<Rightarrow> Inl e
      | Inr (parent1, k1) \<Rightarrow>
     (case tournamentSelection population (tournamentSize config) rnd k1 of
        Inl e \<Rightarrow> Inl e
      | Inr (parent2, k2) \<Rightarrow>
     (case (if rnd k2 < crossoverRate config
            then (case (parent1, parent2) of
                    (Some p1, Some p2) \<Rightarrow>
                      (case orderCrossover (chromosome p1) (chromosome p2)
                              (rnd (k2 + 1)) (rnd (k2 + 2)) of
                         None \<Rightarrow> Inl Diverges
                       | Some child \<Rightarrow> Inr (child, k2 + 3))
                  | _ \<Rightarrow> Inl TypeError)
            else (case parent1 of
                    Some p1 \<Rightarrow> Inr (chromosome p1, k2 + 1)
                  | None \<Rightarrow> Inl TypeError)) of
        Inl e \<Rightarrow> Inl e
      | Inr (offspring, k3) \<Rightarrow>
          (let mutated =
                 (if rnd k3 < rate
                  then (if mutationMethod config = Insert
                        then (insertMutation offspring (rnd (k3 + 1)) (rnd (k3 + 2)), k3 + 3)
                        else (swapMutation offspring (rnd (k3 + 1)) (rnd (k3 + 2)), k3 + 3))
                  else (offspring, k3 + 1))
           in case individual js (fst mutated) (tardinessWeight config) of
                Inl e \<Rightarrow> Inl e
              | Inr ind \<Rightarrow> Inr (ind, snd mutated)))))"

text \<open>
  The \<open>while (newPopulation.length < config.populationSize)\<close> loop; its first
  argument is the number of offspring still missing.
\<close>

fun offspringLoop ::
  "nat \<Rightarrow> Job list \<Rightarrow> GAConfig \<Rightarrow> real \<Rightarrow> Individual option list \<Rightarrow> Individual option list
     \<Rightarrow> rng \<Rightarrow> nat \<Rightarrow> error + Individual option list \<times> nat" where
  "offspringLoop 0 js config rate population newPopulation rnd k = Inr (newPopulation, k)"
| "offspringLoop (Suc n) js config rate population newPopulation rnd k =
     (case makeOffspring js config rate population rnd k of
        Inl e \<Rightarrow> Inl e
      | Inr (ind, k') \<Rightarrow>
          offspringLoop n js config rate population (newPopulation @ [Some ind]) rnd k')"

text \<open>
  The body of the generation loop of \<open>runGA\<close> as far as it makes the next population:
  sort, read \<open>currentBest.fitness\<close> (a TypeError when \<open>population[0]\<close> is
  \<open>undefined\<close>), elitism, offspring. \<open>rate\<close> is the mutation rate of this generation,
  whatever the adaptive control computed. The records of the best individual, of the
  history and of the progress do not touch the population and are left out.
\<close>

definition nextGeneration ::
  "Job list \<Rightarrow> GAConfig \<Rightarrow> real \<Rightarrow> Individual option list \<Rightarrow> rng \<Rightarrow> nat
     \<Rightarrow> error + Individual option list \<times> nat" where
  "nextGeneration js config rate population rnd k =
     (let sorted = sortPopulation population in
      case jsGet sorted 0 of
        None \<Rightarrow> Inl TypeError
      | Some currentBest \<Rightarrow>
          (let newPopulation = elites sorted config
           in offspringLoop (nat (populationSize config - int (length newPopulation)))
                js config rate sorted newPopulation rnd k))"

text \<open>
  The population of \<open>runGA\<close> at the start of generation \<open>g\<close>; \<open>rates g\<close> is the
  mutation rate used in generation \<open>g\<close>. Before generation 0, \<open>bestEver\<close> is taken
  with \<open>reduce\<close>, which throws on an empty population. The cancellation flag is
  not modelled: a cancelled run has no further generation.
\<close>

fun populationAt ::
  "nat \<Rightarrow> Job list \<Rightarrow> GAConfig \<Rightarrow> int option list option \<Rightarrow> (nat \<Rightarrow> real) \<Rightarrow> rng
     \<Rightarrow> error + Individual option list \<times> nat" where
  "populationAt 0 js config initialSequence rates rnd =
     (case createInitialPopulation js (populationSize config) (tardinessWeight config)
             initialSequence rnd 0 of
        Inl e \<Rightarrow> Inl e
      | Inr (population, k) \<Rightarrow>
          (if population = [] then Inl TypeError else Inr (map Some population, k)))"
| "populationAt (Suc g) js config initialSequence rates rnd =
     (case populationAt g js config initialSequence rates rnd of
        Inl e \<Rightarrow> Inl e
      | Inr (population, k) \<Rightarrow> nextGeneration js config (rates g) population rnd k)"

section \<open>Invariants and examples\<close>

text \<open>
  The predicates below are what the proofs keep along a run of the engine and along
  the generations of the optimizer, together with the concrete inputs on which the
  theorems are instantiated.
\<close>

definition bestOK :: "SimulationState \<Rightarrow> Job \<Rightarrow> SetupKit \<Rightarrow> Best \<Rightarrow> bool" where
  "bestOK s job kit b =
     (case bestMachine b of
        None \<Rightarrow> bestStartTime b = None
      | Some i \<Rightarrow>
          setupRequired b \<and>
          stage1SetupTime job kit (machines s ! i) = Some (bestSetupTime b) \<and>
          bestStartTime b = Some (stage1JobStart s kit (machines s ! i) (bestSetupTime b)))"

definition shapeOf :: "Machine list \<Rightarrow> (int \<times> stage) list" where
  "shapeOf ms = map (\<lambda>m. (m_id m, m_stage m)) ms"

definition shape0 :: "(int \<times> stage) list" where
  "shape0 = [(1, Stage1), (2, Stage1), (3, Stage1), (4, Stage1),
             (5, Stage2), (6, Stage2), (7, Stage2), (8, Stage2), (9, Stage2)]"

definition shapeOK :: "SimulationState \<times> PriorityQueue \<Rightarrow> bool" where
  "shapeOK sq = (shapeOf (machines (fst sq)) = shape0)"

definition timesOK :: "SimulationState \<times> PriorityQueue \<Rightarrow> bool" where
  "timesOK sq =
     (0 \<le> currentTime (fst sq) \<and>
      (\<forall>e \<in> set (snd sq). 0 \<le> e_time e) \<and>
      (\<forall>r \<in> set (completedJobs (fst sq)). 0 \<le> endTime r) \<and>
      (\<forall>i job. jobsMap (fst sq) i = Some job \<longrightarrow> 0 \<le> t_smd job \<and> 0 \<le> t_aoi job))"

definition kitsOK :: "SimulationState \<times> PriorityQueue \<Rightarrow> bool" where
  "kitsOK sq =
     (shapeOK sq \<and>
      (\<forall>i job. jobsMap (fst sq) i = Some job \<longrightarrow> setupKits (fst sq) (family job) \<noteq> None) \<and>
      (\<forall>f k. setupKits (fst sq) f = Some k \<longrightarrow>
          currentMachine k = None \<or>
          (\<exists>i \<in> set (stageIndices Stage1 (machines (fst sq))).
              currentMachine k = Some (m_id (machines (fst sq) ! i)))))"

definition knownJob :: "Job list \<Rightarrow> int option \<Rightarrow> bool" where
  "knownJob js g = (case g of None \<Rightarrow> False | Some i \<Rightarrow> i \<in> j_id ` set js)"

definition stage1Ids :: "ScheduledJob list \<Rightarrow> int option list" where
  "stage1Ids cj = map (\<lambda>r. Some (jobId r)) (filter (\<lambda>r. sj_stage r = Stage1) cj)"

definition queueInv :: "Job list \<Rightarrow> int option list \<Rightarrow> SimulationState \<times> PriorityQueue \<Rightarrow> bool" where
  "queueInv js sq0 sq =
     (kitsOK sq \<and>
      jobsMap (fst sq) = jobsMap (initializeState js sq0) \<and>
      stage1Ids (completedJobs (fst sq)) @ stage1Queue (fst sq) = sq0 \<and>
      (\<forall>g \<in> set (stage1Ids (completedJobs (fst sq))). knownJob js g))"

definition blocked :: "Job list \<Rightarrow> SimulationState \<times> PriorityQueue \<Rightarrow> bool" where
  "blocked js sq =
     (case stage1Queue (fst sq) of [] \<Rightarrow> True | g # rest \<Rightarrow> \<not> knownJob js g)"

definition drained :: "Job list \<Rightarrow> int option list \<Rightarrow> SimulationState \<times> PriorityQueue \<Rightarrow> bool" where
  "drained js sq0 sq = (queueInv js sq0 sq \<and> blocked js sq)"

definition balance :: "SimulationState \<times> PriorityQueue \<Rightarrow> int" where
  "balance sq = int (length (completedJobs (fst sq))) - int (length (snd sq))"

definition pending :: "SimulationState \<times> PriorityQueue \<Rightarrow> bool" where
  "pending sq =
     (length (filter (\<lambda>r. sj_stage r = Stage2) (completedJobs (fst sq)))
        + length (stage2Queue (fst sq))
        + length (filter (\<lambda>e. e_type e = STAGE1_COMPLETE) (snd sq))
      = length (filter (\<lambda>r. sj_stage r = Stage1) (completedJobs (fst sq))))"

definition mountedOK :: "SimulationState \<times> PriorityQueue \<Rightarrow> bool" where
  "mountedOK sq =
     (shapeOK sq \<and>
      (\<forall>i < length (machines (fst sq)). \<forall>f.
          currentSetupKit (machines (fst sq) ! i) = Some f \<longrightarrow>
          (\<exists>k. setupKits (fst sq) f = Some k \<and>
               currentMachine k = Some (m_id (machines (fst sq) ! i)))) \<and>
      (\<forall>r \<in> set (completedJobs (fst sq)). sj_stage r = Stage1 \<longrightarrow>
          (\<exists>k. setupKits (fst sq) (sj_family r) = Some k \<and>
               currentMachine k = Some (machineId r))))"

definition kitExclusive :: "SimulationState \<Rightarrow> bool" where
  "kitExclusive s =
     (\<forall>i < length (machines s). \<forall>j < length (machines s).
        currentSetupKit (machines s ! i) \<noteq> None \<and>
        currentSetupKit (machines s ! i) = currentSetupKit (machines s ! j) \<longrightarrow> i = j)"

definition overlap :: "ScheduledJob \<Rightarrow> ScheduledJob \<Rightarrow> bool" where
  "overlap a b = (startTime a < endTime b \<and> startTime b < endTime a)"

definition familyOnOneMachine :: "ScheduledJob list \<Rightarrow> bool" where
  "familyOnOneMachine cj =
     (\<forall>a \<in> set cj. \<forall>b \<in> set cj.
        sj_stage a = Stage1 \<and> sj_stage b = Stage1 \<and> sj_family a = sj_family b
          \<longrightarrow> machineId a = machineId b)"

definition kitsOf :: "Machine list \<Rightarrow> (int \<times> int option) list" where
  "kitsOf ms = map (\<lambda>m. (m_id m, currentSetupKit m)) ms"

definition exJob :: "int \<Rightarrow> real \<Rightarrow> int \<Rightarrow> real \<Rightarrow> real \<Rightarrow> Job" where
  "exJob i d f a b = \<lparr>j_id = i, dueDate = d, family = f, t_smd = a, t_aoi = b\<rparr>"


definition exConfig :: GAConfig where
  "exConfig = \<lparr>populationSize = 4, generations = 2, tournamentSize = 2, crossoverRate = 4/5,
     mutationRate = 1/5, mutationMethod = Insert, elitismRate = 1/4, tardinessWeight = 1/2,
     useAdaptive = False, adaptiveWindow = 10\<rparr>"

definition exRnd :: rng where
  "exRnd k = real ((k * 7 + 3) mod 10) / 10"

definition fillInv ::
  "int option list \<Rightarrow> int option list \<Rightarrow> nat \<Rightarrow> nat \<Rightarrow> nat \<Rightarrow> nat \<Rightarrow> int option list \<Rightarrow> bool" where
  "fillInv p1 p2 a L t cnt child =
     (length child = length p1 \<and> cnt \<le> L \<and> L \<le> length p1 \<and>
      (\<forall>k. cnt \<le> k \<and> k < L \<longrightarrow> child ! ((a + k) mod length p1) = Some (- 1)) \<and>
      count (mset child) (Some (- 1)) = L - cnt \<and>
      filter_mset (\<lambda>x. x \<noteq> Some (- 1)) (mset child) \<subseteq># mset p1 \<and>
      (\<forall>k < t. p2 ! ((a + k) mod length p1) \<in> set child))"

definition idsOf :: "Job list \<Rightarrow> int option list" where
  "idsOf js = map (\<lambda>j. Some (j_id j)) js"

definition popPerm :: "Job list \<Rightarrow> Individual option list \<Rightarrow> bool" where
  "popPerm js population =
     (\<forall>ind. Some ind \<in> set population \<longrightarrow> mset (chromosome ind) = mset (idsOf js))"

definition unitRange :: "rng \<Rightarrow> bool" where
  "unitRange rnd = (\<forall>k. 0 \<le> rnd k \<and> rnd k < 1)"

definition validIds :: "Job list \<Rightarrow> bool" where
  "validIds js = (js \<noteq> [] \<and> distinct (map j_id js) \<and> - 1 \<notin> j_id ` set js)"

definition validConfig :: "GAConfig \<Rightarrow> bool" where
  "validConfig config =
     (1 \<le> populationSize config \<and> 1 \<le> tournamentSize config \<and> elitismRate config \<le> 1)"

definition fullPopulation :: "GAConfig \<Rightarrow> Individual option list \<Rightarrow> bool" where
  "fullPopulation config population =
     (length population = nat (populationSize config) \<and> None \<notin> set population)"

definition exJobs :: "Job list" where
  "exJobs = [exJob 1 100 1 10 5, exJob 2 90 2 30 5, exJob 3 80 1 20 40]"

definition exPopulation :: "Individual option list" where
  "exPopulation =
     [Some \<lparr>chromosome = [Some 2, Some 3, Some 1], fitness = 150,
            i_makespan = 150, i_totalTardiness = 150\<rparr>,
      Some \<lparr>chromosome = [Some 2, Some 1, Some 3], fitness = 160,
            i_makespan = 180, i_totalTardiness = 140\<rparr>,
      Some \<lparr>chromosome = [Some 3, Some 2, Some 1], fitness = 150,
            i_makespan = 150, i_totalTardiness = 150\<rparr>,
      Some \<lparr>chromosome = [Some 3, Some 1, Some 2], fitness = 150,
            i_makespan = 150, i_totalTardiness = 150\<rparr>]"

text \<open>
  The choice of \<open>tryAssignStage1Jobs\<close>, said without the loop: machine \<open>bi\<close> is a
  stage-1 machine that is not skipped and is charged the setup \<open>st\<close>, and no stage-1
  machine that is not skipped gives an earlier job start.
\<close>

definition greedyStage1 :: "SimulationState \<Rightarrow> Job \<Rightarrow> SetupKit \<Rightarrow> nat \<Rightarrow> real \<Rightarrow> bool" where
  "greedyStage1 s job kit bi st =
     (bi \<in> set (stageIndices Stage1 (machines s)) \<and>
      stage1SetupTime job kit (machines s ! bi) = Some st \<and>
      (\<forall>j \<in> set (stageIndices Stage1 (machines s)). \<forall>st'.
          stage1SetupTime job kit (machines s ! j) = Some st' \<longrightarrow>
          max (max (currentTime s) (m_availableAt (machines s ! bi))) (k_availableAt kit) + st
            \<le> max (max (currentTime s) (m_availableAt (machines s ! j))) (k_availableAt kit) + st'))"

text \<open>The ScheduledJob that an assignment to machine \<open>bi\<close> with the setup \<open>st\<close> records.\<close>

definition stage1Record ::
  "SimulationState \<Rightarrow> int \<Rightarrow> Job \<Rightarrow> SetupKit \<Rightarrow> nat \<Rightarrow> real \<Rightarrow> ScheduledJob" where
  "stage1Record s jid job kit bi st =
     \<lparr>jobId = jid, machineId = m_id (machines s ! bi), sj_stage = Stage1,
      startTime = max (max (currentTime s) (m_availableAt (machines s ! bi))) (k_availableAt kit) + st,
      endTime = max (max (currentTime s) (m_availableAt (machines s ! bi))) (k_availableAt kit) + st
                  + t_smd job,
      setupTime = st,
      setupType = (if st = 65 then SetupMajor else SetupMinor),
      setupStartTime = Some (max (max (currentTime s) (m_availableAt (machines s ! bi)))
                                 (k_availableAt kit)),
      processingTime = t_smd job, sj_family = family job,
      isLate = False, tardiness = 0\<rparr>"

text \<open>The state after \<open>k\<close> passes of the loop of \<open>tryAssignStage1Jobs\<close>, each with an assignment.\<close>

primrec stage1After ::
  "nat \<Rightarrow> SimulationState \<times> PriorityQueue \<Rightarrow> (SimulationState \<times> PriorityQueue) option" where
  "stage1After 0 sq = Some sq"
| "stage1After (Suc k) sq = (case stage1After k sq of None \<Rightarrow> None | Some sk \<Rightarrow> stage1Step sk)"





section \<open>The event queue pops by time, first pushed first\<close>

lemma sort_key_snoc_sorted:
  "sort_key f (sort_key f xs @ [x]) = sort_key f (xs @ [x])"
proof (rule properties_for_sort_key)
  show "mset (sort_key f (xs @ [x])) = mset (sort_key f xs @ [x])" by simp
next
  fix k assume "k \<in> set (sort_key f (xs @ [x]))"
  have "filter (\<lambda>y. f k = f y) (sort_key f (xs @ [x])) = filter (\<lambda>y. f k = f y) (xs @ [x])"
    using sort_key_stable [of f "f k" "xs @ [x]"] by (simp add: eq_commute)
  moreover have "filter (\<lambda>y. f k = f y) (sort_key f xs) = filter (\<lambda>y. f k = f y) xs"
    using sort_key_stable [of f "f k" xs] by (simp add: eq_commute)
  ultimately show "filter (\<lambda>y. f k = f y) (sort_key f (xs @ [x]))
                 = filter (\<lambda>y. f k = f y) (sort_key f xs @ [x])" by simp
next
  show "sorted (map f (sort_key f (xs @ [x])))" by simp
qed

lemma fold_push_sort: "fold push es (sort_key e_time q) = sort_key e_time (q @ es)"
proof (induction es arbitrary: q)
  case Nil
  then show ?case by simp
next
  case (Cons e es)
  have "fold push (e # es) (sort_key e_time q) = fold push es (sort_key e_time (q @ [e]))"
    by (simp add: push_def sort_key_snoc_sorted)
  also have "\<dots> = sort_key e_time ((q @ [e]) @ es)" by (rule Cons.IH)
  finally show ?case by simp
qed

lemma pushes_sorted: "fold push es [] = sort_key e_time es"
  using fold_push_sort [of es "[]"] by simp

lemma hd_sort_key_min:
  assumes "xs \<noteq> []"
  shows "\<forall>y \<in> set xs. f (hd (sort_key f xs)) \<le> f y"
proof -
  have ne: "sort_key f xs \<noteq> []" using assms by (metis length_0_conv length_sort)
  then obtain z zs where z: "sort_key f xs = z # zs" by (cases "sort_key f xs") auto
  have "sorted (map f (z # zs))" using sorted_sort_key [of f xs] z by simp
  then have "\<forall>y \<in> set (z # zs). f z \<le> f y" by auto
  moreover have "set (z # zs) = set xs" using z set_sort [of f xs] by simp
  ultimately show ?thesis using z by (metis list.sel(1))
qed

lemma hd_sort_key_first:
  assumes "xs \<noteq> []"
  shows "hd (sort_key f xs) = hd (filter (\<lambda>y. f y = f (hd (sort_key f xs))) xs)"
proof -
  have ne: "sort_key f xs \<noteq> []" using assms by (metis length_0_conv length_sort)
  then obtain z zs where z: "sort_key f xs = z # zs" by (cases "sort_key f xs") auto
  have "filter (\<lambda>y. f y = f z) (sort_key f xs) = filter (\<lambda>y. f y = f z) xs"
    by (rule sort_key_stable)
  then have "z # filter (\<lambda>y. f y = f z) zs = filter (\<lambda>y. f y = f z) xs"
    using z by simp
  then show ?thesis using z by (metis list.sel(1))
qed

text \<open>
  C4 (as amended). After any sequence of pushes into an empty queue, \<open>pop\<close> returns
  nothing when no event was pushed, and otherwise an event of the smallest time; among
  the events of that time it returns the one pushed first. The event type plays no part.
\<close>

theorem pop_earliest_first_pushed:
  "(es = [] \<longrightarrow> fst (pop (fold push es [])) = None) \<and>
   (es \<noteq> [] \<longrightarrow>
      (\<exists>x. fst (pop (fold push es [])) = Some x \<and> x \<in> set es \<and>
           (\<forall>y \<in> set es. e_time x \<le> e_time y) \<and>
           x = hd (filter (\<lambda>y. e_time y = e_time x) es)))"
proof (cases "es = []")
  case True
  then show ?thesis by (simp add: pop_def)
next
  case False
  let ?q = "sort_key e_time es"
  have ne: "?q \<noteq> []" using False by (metis length_0_conv length_sort)
  then obtain z zs where z: "?q = z # zs" by (cases ?q) auto
  have p: "fst (pop (fold push es [])) = Some z"
    by (simp add: pushes_sorted pop_def z)
  have "z \<in> set ?q" using z by simp
  then have m: "z \<in> set es" by simp
  have le: "\<forall>y \<in> set es. e_time z \<le> e_time y"
    using hd_sort_key_min [OF False, of e_time] z by simp
  have first: "z = hd (filter (\<lambda>y. e_time y = e_time z) es)"
    using hd_sort_key_first [OF False, of e_time] z by simp
  show ?thesis using False p m le first by blast
qed

theorem pop_earliest_first_pushed_witness:
  "\<exists>x. fst (pop (fold push
            [\<lparr>e_type = SIMULATION_END, e_time = 7, e_jobId = Some 1, e_machineId = Some 5,
               e_stage = Some Stage2\<rparr>,
             \<lparr>e_type = STAGE1_COMPLETE, e_time = 3, e_jobId = Some 2, e_machineId = Some 1,
               e_stage = Some Stage1\<rparr>] [])) = Some x \<and> e_time x = 3"
  using pop_earliest_first_pushed
          [of "[\<lparr>e_type = SIMULATION_END, e_time = 7, e_jobId = Some 1, e_machineId = Some 5,
                  e_stage = Some Stage2\<rparr>,
                \<lparr>e_type = STAGE1_COMPLETE, e_time = 3, e_jobId = Some 2, e_machineId = Some 1,
                  e_stage = Some Stage1\<rparr>]"]
  by auto

text \<open>
  C4 (as stated) fails: a stage-2 completion (\<open>SIMULATION_END\<close>, priority 5) pushed
  before a stage-1 completion (\<open>STAGE1_COMPLETE\<close>, priority 4) of the same time is
  popped first.
\<close>

theorem pop_type_priority_counterexample:
  "fst (pop (push \<lparr>e_type = STAGE1_COMPLETE, e_time = 5, e_jobId = Some 2,
                    e_machineId = Some 1, e_stage = Some Stage1\<rparr>
              (push \<lparr>e_type = SIMULATION_END, e_time = 5, e_jobId = Some 1,
                      e_machineId = Some 5, e_stage = Some Stage2\<rparr> [])))
     = Some \<lparr>e_type = SIMULATION_END, e_time = 5, e_jobId = Some 1,
              e_machineId = Some 5, e_stage = Some Stage2\<rparr>
   \<and> priority STAGE1_COMPLETE = Some 4 \<and> priority SIMULATION_END = Some 5"
  by (simp add: push_def pop_def)

section \<open>The scan of the stage-1 machines\<close>

lemma bestOK_noBest: "bestOK s job kit noBest"
  by (simp add: bestOK_def noBest_def)

lemma scanMachines_bestOK:
  "bestOK s job kit b \<Longrightarrow> bestOK s job kit (scanMachines s job kit is b)"
proof (induction "is" arbitrary: b)
  case Nil
  then show ?case by simp
next
  case (Cons i rest)
  show ?case
  proof (cases "stage1SetupTime job kit (machines s ! i)")
    case None
    then show ?thesis using Cons by simp
  next
    case (Some st)
    let ?b' = "\<lparr>bestMachine = Some i,
                bestStartTime = Some (stage1JobStart s kit (machines s ! i) st),
                setupRequired = True, bestSetupTime = st\<rparr>"
    have "bestOK s job kit ?b'" using Some by (simp add: bestOK_def)
    then show ?thesis using Some Cons by (simp add: Let_def)
  qed
qed

lemma scanMachines_mem:
  "bestMachine (scanMachines s job kit is b) = Some i
     \<Longrightarrow> i \<in> set is \<or> bestMachine b = Some i"
proof (induction "is" arbitrary: b)
  case Nil
  then show ?case by simp
next
  case (Cons j rest)
  then show ?case
    by (fastforce simp: Let_def split: option.splits if_splits)
qed

lemma scanMachines_le_acc:
  "bestStartTime b = Some t0 \<Longrightarrow>
     \<exists>t. bestStartTime (scanMachines s job kit is b) = Some t \<and> t \<le> t0"
proof (induction "is" arbitrary: b t0)
  case Nil
  then show ?case by simp
next
  case (Cons j rest)
  show ?case
  proof (cases "stage1SetupTime job kit (machines s ! j)")
    case None
    then show ?thesis using Cons by simp
  next
    case (Some st)
    let ?t = "stage1JobStart s kit (machines s ! j) st"
    show ?thesis
    proof (cases "?t < t0")
      case True
      let ?b' = "\<lparr>bestMachine = Some j, bestStartTime = Some ?t,
                  setupRequired = True, bestSetupTime = st\<rparr>"
      have "\<exists>t. bestStartTime (scanMachines s job kit rest ?b') = Some t \<and> t \<le> ?t"
        by (rule Cons.IH) simp
      then show ?thesis using Some True Cons.prems
        by (auto simp: Let_def lessBest_def)
    next
      case False
      then show ?thesis using Some Cons by (simp add: Let_def lessBest_def)
    qed
  qed
qed

lemma scanMachines_min:
  assumes "j \<in> set is" and "stage1SetupTime job kit (machines s ! j) = Some st"
  shows "\<exists>t. bestStartTime (scanMachines s job kit is b) = Some t \<and>
             t \<le> stage1JobStart s kit (machines s ! j) st"
  using assms
proof (induction "is" arbitrary: b)
  case Nil
  then show ?case by simp
next
  case (Cons i rest)
  show ?case
  proof (cases "j = i")
    case True
    let ?t = "stage1JobStart s kit (machines s ! i) st"
    let ?b' = "\<lparr>bestMachine = Some i, bestStartTime = Some ?t,
                setupRequired = True, bestSetupTime = st\<rparr>"
    show ?thesis
    proof (cases "lessBest ?t (bestStartTime b)")
      case True
      have "\<exists>t. bestStartTime (scanMachines s job kit rest ?b') = Some t \<and> t \<le> ?t"
        by (rule scanMachines_le_acc) simp
      then show ?thesis using True \<open>j = i\<close> Cons.prems by (simp add: Let_def)
    next
      case False
      then obtain t0 where t0: "bestStartTime b = Some t0" "t0 \<le> ?t"
        by (auto simp: lessBest_def split: option.splits)
      have "\<exists>t. bestStartTime (scanMachines s job kit rest b) = Some t \<and> t \<le> t0"
        by (rule scanMachines_le_acc) (rule t0(1))
      then show ?thesis using False \<open>j = i\<close> Cons.prems t0 by (auto simp: Let_def)
    qed
  next
    case False
    then have "j \<in> set rest" using Cons.prems by simp
    then show ?thesis using Cons.IH Cons.prems(2)
      by (auto simp: Let_def split: option.splits)
  qed
qed

section \<open>Invariant rules for the main loop\<close>

lemma tryAssignStage1Jobs_preserves:
  assumes step: "\<And>sq sq'. P sq \<Longrightarrow> stage1Step sq = Some sq' \<Longrightarrow> P sq'"
  shows "P sq \<Longrightarrow> P (tryAssignStage1Jobs sq)"
proof (induction sq rule: tryAssignStage1Jobs.induct)
  case (1 sq)
  show ?case
  proof (cases "stage1Step sq")
    case None
    then show ?thesis using "1.prems" by (simp add: tryAssignStage1Jobs.simps [of sq])
  next
    case (Some sq')
    have "P sq'" using step "1.prems" Some by blast
    then have "P (tryAssignStage1Jobs sq')" using "1.IH" Some by blast
    then show ?thesis using Some by (simp add: tryAssignStage1Jobs.simps [of sq])
  qed
qed

lemma tryAssignStage2Jobs_preserves:
  assumes step: "\<And>sq sq'. P sq \<Longrightarrow> stage2Step sq = Inr (Some sq') \<Longrightarrow> P sq'"
  shows "P sq \<Longrightarrow> tryAssignStage2Jobs sq = Inr sq'' \<Longrightarrow> P sq''"
proof (induction sq rule: tryAssignStage2Jobs.induct)
  case (1 sq)
  show ?case
  proof (cases "stage2Step sq")
    case (Inl e)
    then show ?thesis using "1.prems" by (simp add: tryAssignStage2Jobs.simps [of sq])
  next
    case (Inr r)
    show ?thesis
    proof (cases r)
      case None
      then show ?thesis using Inr "1.prems" by (simp add: tryAssignStage2Jobs.simps [of sq])
    next
      case (Some sq')
      have "P sq'" using step "1.prems"(1) Inr Some by blast
      moreover have "tryAssignStage2Jobs sq' = Inr sq''"
        using "1.prems"(2) Inr Some by (simp add: tryAssignStage2Jobs.simps [of sq])
      ultimately show ?thesis using "1.IH" Inr Some by blast
    qed
  qed
qed

lemma mainLoop_preserves:
  assumes ev: "\<And>e s q sq'. P (s, e # q) \<Longrightarrow> processEvent e (s, q) = Inr sq' \<Longrightarrow> P sq'"
      and st1: "\<And>sq sq'. P sq \<Longrightarrow> stage1Step sq = Some sq' \<Longrightarrow> P sq'"
  shows "P sq \<Longrightarrow> mainLoop n sq = Inr (left, sq') \<Longrightarrow> P sq'"
proof (induction n arbitrary: sq)
  case 0
  then show ?case by simp
next
  case (Suc n)
  obtain s q where sq: "sq = (s, q)" by (cases sq)
  show ?case
  proof (cases q)
    case Nil
    then show ?thesis using Suc.prems sq by (simp add: isEmpty_def)
  next
    case (Cons e q')
    show ?thesis
    proof (cases "processEvent e (s, q')")
      case (Inl err)
      then show ?thesis using Suc.prems sq Cons by (simp add: isEmpty_def pop_def)
    next
      case (Inr sq1)
      have "P sq1" using ev Suc.prems(1) sq Cons Inr by blast
      then have "P (tryAssignStage1Jobs sq1)"
        using tryAssignStage1Jobs_preserves [of P] st1 by blast
      moreover have "mainLoop n (tryAssignStage1Jobs sq1) = Inr (left, sq')"
        using Suc.prems(2) sq Cons Inr by (simp add: isEmpty_def pop_def)
      ultimately show ?thesis using Suc.IH by blast
    qed
  qed
qed

lemma processEvent_preserves:
  assumes st2: "\<And>sq sq'. P sq \<Longrightarrow> stage2Step sq = Inr (Some sq') \<Longrightarrow> P sq'"
      and clock: "\<And>s e q. P (s, e # q) \<Longrightarrow> P (s\<lparr>currentTime := e_time e\<rparr>, q)"
      and clear: "\<And>s q mid. P (s, q) \<Longrightarrow> P (s\<lparr>machines := clearCurrentJob mid (machines s)\<rparr>, q)"
      and enq: "\<And>s q g. P (s, q) \<Longrightarrow> P (s\<lparr>stage2Queue := stage2Queue s @ [g]\<rparr>, q)"
  shows "P (s, e # q) \<Longrightarrow> processEvent e (s, q) = Inr sq' \<Longrightarrow> P sq'"
proof -
  assume p: "P (s, e # q)" and r: "processEvent e (s, q) = Inr sq'"
  let ?s1 = "s\<lparr>currentTime := e_time e\<rparr>"
  have p1: "P (?s1, q)" using clock p by blast
  let ?s2 = "?s1\<lparr>machines := clearCurrentJob (e_machineId e) (machines ?s1)\<rparr>"
  have p2: "P (?s2, q)" using clear [OF p1] by simp
  let ?s3 = "?s2\<lparr>stage2Queue := stage2Queue ?s2 @ [e_jobId e]\<rparr>"
  have p3: "P (?s3, q)" using enq [OF p2] by simp
  show ?thesis
  proof (cases "e_type e")
    case STAGE1_COMPLETE
    then have "tryAssignStage2Jobs (?s3, q) = Inr sq'"
      using r by (simp add: processEvent_def Let_def)
    then show ?thesis using tryAssignStage2Jobs_preserves [of P] st2 p3 by blast
  next
    case SIMULATION_END
    then have "sq' = (?s2, q)" using r by (simp add: processEvent_def Let_def)
    then show ?thesis using p2 by simp
  qed (use r p1 in \<open>auto simp: processEvent_def Let_def\<close>)
qed

lemma simulate_invariant:
  assumes init: "P (initializeState js sq0, [])"
      and st1: "\<And>sq sq'. P sq \<Longrightarrow> stage1Step sq = Some sq' \<Longrightarrow> P sq'"
      and st2: "\<And>sq sq'. P sq \<Longrightarrow> stage2Step sq = Inr (Some sq') \<Longrightarrow> P sq'"
      and clock: "\<And>s e q. P (s, e # q) \<Longrightarrow> P (s\<lparr>currentTime := e_time e\<rparr>, q)"
      and clear: "\<And>s q mid. P (s, q) \<Longrightarrow> P (s\<lparr>machines := clearCurrentJob mid (machines s)\<rparr>, q)"
      and enq: "\<And>s q g. P (s, q) \<Longrightarrow> P (s\<lparr>stage2Queue := stage2Queue s @ [g]\<rparr>, q)"
  shows "simulate n js sq0 = Inr (left, sq') \<Longrightarrow> P sq'"
proof -
  assume r: "simulate n js sq0 = Inr (left, sq')"
  have p0: "P (tryAssignStage1Jobs (initializeState js sq0, []))"
    using tryAssignStage1Jobs_preserves [of P] st1 init by blast
  have ev: "\<And>e s q sq'. P (s, e # q) \<Longrightarrow> processEvent e (s, q) = Inr sq' \<Longrightarrow> P sq'"
    using processEvent_preserves [of P] st2 clock clear enq by blast
  have r': "mainLoop n (tryAssignStage1Jobs (initializeState js sq0, [])) = Inr (left, sq')"
    using r by (simp add: simulate_def)
  show ?thesis
  proof (rule mainLoop_preserves [where P = P and n = n and left = left
                                     and sq = "tryAssignStage1Jobs (initializeState js sq0, [])"])
    show "\<And>e s q sq'. P (s, e # q) \<Longrightarrow> processEvent e (s, q) = Inr sq' \<Longrightarrow> P sq'"
      by (rule ev)
    show "\<And>sq sq'. P sq \<Longrightarrow> stage1Step sq = Some sq' \<Longrightarrow> P sq'"
      by (rule st1)
    show "P (tryAssignStage1Jobs (initializeState js sq0, []))" by (rule p0)
    show "mainLoop n (tryAssignStage1Jobs (initializeState js sq0, [])) = Inr (left, sq')"
      by (rule r')
  qed
qed

section \<open>One pass of an assignment loop\<close>

lemma stage1Step_SomeD:
  assumes "stage1Step (s, q) = Some sq'"
  shows "\<exists>jid rest job kit bi.
           stage1Queue s = Some jid # rest \<and> jobsMap s jid = Some job \<and>
           setupKits s (family job) = Some kit \<and>
           bestMachine (scanMachines s job kit (stageIndices Stage1 (machines s)) noBest) = Some bi \<and>
           sq' = assignStage1 (s, q) jid job kit
                   (scanMachines s job kit (stageIndices Stage1 (machines s)) noBest) bi"
  using assms
  by (auto simp: stage1Step_def getJob_def Let_def split: list.splits option.splits)

lemma stage2Step_SomeD:
  assumes "stage2Step (s, q) = Inr (Some sq')"
  shows "\<exists>jid rest job bi stage1Job.
           stage2Queue s = Some jid # rest \<and> jobsMap s jid = Some job \<and>
           earliestMachine (machines s) (stageIndices Stage2 (machines s)) = Inr bi \<and>
           find (\<lambda>sj. jobId sj = jid \<and> sj_stage sj = Stage1) (completedJobs s) = Some stage1Job \<and>
           sq' = assignStage2 (s, q) jid job bi stage1Job"
  using assms
  by (auto simp: stage2Step_def getJob_def Let_def split: list.splits option.splits sum.splits)

lemma stageIndices_mem:
  "i \<in> set (stageIndices st ms) \<longleftrightarrow> i < length ms \<and> m_stage (ms ! i) = st"
  by (auto simp: stageIndices_def)





section \<open>The machine list keeps its ids and stages\<close>

lemma shapeOf_update:
  "m_id y = m_id (ms ! k) \<Longrightarrow> m_stage y = m_stage (ms ! k) \<Longrightarrow> shapeOf (ms[k := y]) = shapeOf ms"
proof (cases "k < length ms")
  case True
  assume "m_id y = m_id (ms ! k)" "m_stage y = m_stage (ms ! k)"
  then show ?thesis using True
    by (simp add: shapeOf_def map_update list_update_same_conv)
next
  case False
  then have "ms[k := y] = ms" by (simp add: list_update_beyond)
  then show ?thesis by simp
qed

lemma shapeOf_length: "shapeOf ms = shapeOf ms' \<Longrightarrow> length ms = length ms'"
  by (metis length_map shapeOf_def)

lemma shapeOf_nth:
  "shapeOf ms = shapeOf ms' \<Longrightarrow> i < length ms \<Longrightarrow>
     m_id (ms ! i) = m_id (ms' ! i) \<and> m_stage (ms ! i) = m_stage (ms' ! i)"
proof -
  assume a: "shapeOf ms = shapeOf ms'" and i: "i < length ms"
  have "shapeOf ms ! i = shapeOf ms' ! i" using a by simp
  moreover have "i < length ms'" using shapeOf_length [OF a] i by simp
  ultimately show ?thesis using i by (simp add: shapeOf_def)
qed

lemma stageIndices_shape:
  "shapeOf ms = shapeOf ms' \<Longrightarrow> stageIndices st ms = stageIndices st ms'"
proof -
  assume a: "shapeOf ms = shapeOf ms'"
  have l: "length ms = length ms'" by (rule shapeOf_length [OF a])
  have "filter (\<lambda>i. m_stage (ms ! i) = st) [0..<length ms]
      = filter (\<lambda>i. m_stage (ms' ! i) = st) [0..<length ms]"
    by (rule filter_cong) (use shapeOf_nth [OF a] in auto)
  then show ?thesis by (simp add: stageIndices_def l)
qed

lemma clearCurrentJob_shape: "shapeOf (clearCurrentJob mid ms) = shapeOf ms"
  by (auto simp: clearCurrentJob_def shapeOf_update split: option.splits)

lemma mountKit_shape: "shapeOf (mountKit ms bi jid t kit fam) = shapeOf ms"
  by (auto simp: mountKit_def Let_def shapeOf_update split: option.splits)

lemma assignStage1_machines:
  "\<exists>t. machines (fst (assignStage1 (s, q) jid job kit b bi))
         = mountKit (machines s) bi jid t kit (family job)"
  by (auto simp: assignStage1_def Let_def)

lemma assignStage1_machines_shape:
  "shapeOf (machines (fst (assignStage1 (s, q) jid job kit b bi))) = shapeOf (machines s)"
  using assignStage1_machines [of s q jid job kit b bi] by (auto simp: mountKit_shape)

lemma initial_machines:
  "machines (initializeState js sq0) =
     [newMachine 1 Stage1, newMachine 2 Stage1, newMachine 3 Stage1, newMachine 4 Stage1,
      newMachine 5 Stage2, newMachine 6 Stage2, newMachine 7 Stage2, newMachine 8 Stage2,
      newMachine 9 Stage2]"
  by (simp add: initializeState_def STAGE1_MACHINES_def STAGE2_MACHINES_def upt_rec)

lemma shapeOK_init: "shapeOK (initializeState js sq0, [])"
  by (simp add: shapeOK_def initial_machines shapeOf_def shape0_def newMachine_def)

lemma assignStage2_machines_shape:
  "shapeOf (machines (fst (assignStage2 (s, q) jid job bi stage1Job))) = shapeOf (machines s)"
  by (auto simp: assignStage2_def Let_def shapeOf_update)

lemma shapeOK_stage1Step: "shapeOK sq \<Longrightarrow> stage1Step sq = Some sq' \<Longrightarrow> shapeOK sq'"
proof -
  assume a: "shapeOK sq" and b: "stage1Step sq = Some sq'"
  obtain s q where sq: "sq = (s, q)" by (cases sq)
  from stage1Step_SomeD [OF b [unfolded sq]] show ?thesis
    using a sq by (auto simp: shapeOK_def assignStage1_machines_shape)
qed

lemma shapeOK_stage2Step: "shapeOK sq \<Longrightarrow> stage2Step sq = Inr (Some sq') \<Longrightarrow> shapeOK sq'"
proof -
  assume a: "shapeOK sq" and b: "stage2Step sq = Inr (Some sq')"
  obtain s q where sq: "sq = (s, q)" by (cases sq)
  from stage2Step_SomeD [OF b [unfolded sq]] show ?thesis
    using a sq by (auto simp: shapeOK_def assignStage2_machines_shape)
qed

lemma shapeOK_clock: "shapeOK (s, e # q) \<Longrightarrow> shapeOK (s\<lparr>currentTime := t\<rparr>, q)"
  by (simp add: shapeOK_def)

lemma shapeOK_clear:
  "shapeOK (s, q) \<Longrightarrow> shapeOK (s\<lparr>machines := clearCurrentJob mid (machines s)\<rparr>, q)"
  by (simp add: shapeOK_def clearCurrentJob_shape)

lemma shapeOK_enq: "shapeOK (s, q) \<Longrightarrow> shapeOK (s\<lparr>stage2Queue := stage2Queue s @ [g]\<rparr>, q)"
  by (simp add: shapeOK_def)


lemma shapeOK_stage2_indices: "shapeOK sq \<Longrightarrow> stageIndices Stage2 (machines (fst sq)) = [4, 5, 6, 7, 8]"
proof -
  assume a: "shapeOK sq"
  let ?ms0 = "machines (initializeState [] [])"
  have "shapeOf (machines (fst sq)) = shapeOf ?ms0"
    using a shapeOK_init [of "[]" "[]"] by (simp add: shapeOK_def)
  then have "stageIndices Stage2 (machines (fst sq)) = stageIndices Stage2 ?ms0"
    by (rule stageIndices_shape)
  also have "\<dots> = [4, 5, 6, 7, 8]"
    by (simp add: initial_machines stageIndices_def newMachine_def upt_rec)
  finally show ?thesis .
qed

lemma shapeOK_stage1_indices: "shapeOK sq \<Longrightarrow> stageIndices Stage1 (machines (fst sq)) = [0, 1, 2, 3]"
proof -
  assume a: "shapeOK sq"
  let ?ms0 = "machines (initializeState [] [])"
  have "shapeOf (machines (fst sq)) = shapeOf ?ms0"
    using a shapeOK_init [of "[]" "[]"] by (simp add: shapeOK_def)
  then have "stageIndices Stage1 (machines (fst sq)) = stageIndices Stage1 ?ms0"
    by (rule stageIndices_shape)
  also have "\<dots> = [0, 1, 2, 3]"
    by (simp add: initial_machines stageIndices_def newMachine_def upt_rec)
  finally show ?thesis .
qed

lemma shapeOK_distinct_ids: "shapeOK sq \<Longrightarrow> distinct (map m_id (machines (fst sq)))"
proof -
  assume a: "shapeOK sq"
  have "map m_id (machines (fst sq)) = map fst (shapeOf (machines (fst sq)))"
    by (simp add: shapeOf_def comp_def)
  then show ?thesis using a by (simp add: shapeOK_def shape0_def)
qed

section \<open>The engine returns for every input\<close>

lemma stage2Step_no_error: "shapeOK sq \<Longrightarrow> stage2Step sq \<noteq> Inl e"
  using shapeOK_stage2_indices [of sq]
  by (auto simp: stage2Step_def Let_def earliestMachine_def
           split: list.splits option.splits sum.splits)

lemma tryAssignStage2Jobs_total: "shapeOK sq \<Longrightarrow> \<exists>sq'. tryAssignStage2Jobs sq = Inr sq'"
proof (induction sq rule: tryAssignStage2Jobs.induct)
  case (1 sq)
  show ?case
  proof (cases "stage2Step sq")
    case (Inl e)
    then show ?thesis using stage2Step_no_error "1.prems" by blast
  next
    case (Inr r)
    show ?thesis
    proof (cases r)
      case None
      then show ?thesis using Inr by (simp add: tryAssignStage2Jobs.simps [of sq])
    next
      case (Some sq')
      have "shapeOK sq'" using shapeOK_stage2Step "1.prems" Inr Some by blast
      then have "\<exists>sq''. tryAssignStage2Jobs sq' = Inr sq''" using "1.IH" Inr Some by blast
      then show ?thesis using Inr Some by (simp add: tryAssignStage2Jobs.simps [of sq])
    qed
  qed
qed

lemma processEvent_total: "shapeOK (s, q) \<Longrightarrow> \<exists>sq'. processEvent e (s, q) = Inr sq'"
proof -
  assume a: "shapeOK (s, q)"
  have "shapeOK (s\<lparr>currentTime := e_time e,
                   machines := clearCurrentJob (e_machineId e) (machines s),
                   stage2Queue := stage2Queue s @ [e_jobId e]\<rparr>, q)"
    using a by (simp add: shapeOK_def clearCurrentJob_shape)
  from tryAssignStage2Jobs_total [OF this] show ?thesis
    by (cases "e_type e") (auto simp: processEvent_def Let_def)
qed

lemma shapeOK_processEvent:
  "shapeOK (s, e # q) \<Longrightarrow> processEvent e (s, q) = Inr sq' \<Longrightarrow> shapeOK sq'"
  by (rule processEvent_preserves [where P = shapeOK])
     (assumption | rule shapeOK_clock shapeOK_clear shapeOK_enq | erule shapeOK_stage2Step)+

lemma mainLoop_total: "shapeOK sq \<Longrightarrow> \<exists>left sq'. mainLoop n sq = Inr (left, sq')"
proof (induction n arbitrary: sq)
  case 0
  then show ?case by simp
next
  case (Suc n)
  obtain s q where sq: "sq = (s, q)" by (cases sq)
  show ?case
  proof (cases q)
    case Nil
    then show ?thesis using sq by (simp add: isEmpty_def)
  next
    case (Cons e q')
    have ok: "shapeOK (s, q')" using Suc.prems sq by (simp add: shapeOK_def)
    then obtain sq1 where sq1: "processEvent e (s, q') = Inr sq1"
      using processEvent_total by blast
    have "shapeOK (s, e # q')" using ok by (simp add: shapeOK_def)
    then have "shapeOK sq1" using shapeOK_processEvent sq1 by blast
    then have "shapeOK (tryAssignStage1Jobs sq1)"
      using tryAssignStage1Jobs_preserves [of shapeOK] shapeOK_stage1Step by blast
    then obtain left sq' where "mainLoop n (tryAssignStage1Jobs sq1) = Inr (left, sq')"
      using Suc.IH by blast
    then show ?thesis using sq Cons sq1 by (simp add: isEmpty_def pop_def)
  qed
qed

lemma simulate_total: "\<exists>left sq'. simulate n js sq0 = Inr (left, sq')"
proof -
  have "shapeOK (tryAssignStage1Jobs (initializeState js sq0, []))"
    using tryAssignStage1Jobs_preserves [of shapeOK] shapeOK_stage1Step shapeOK_init by blast
  then show ?thesis unfolding simulate_def by (rule mainLoop_total)
qed

lemma runSimulation_Inr:
  "\<exists>left sq'. simulate maxIterations js sq0 = Inr (left, sq') \<and>
        runSimulation js sq0 = Inr (buildSchedule (fst sq'))"
proof -
  obtain left sq' where "simulate maxIterations js sq0 = Inr (left, sq')"
    using simulate_total by blast
  then show ?thesis by (auto simp: runSimulation_def)
qed

section \<open>Times are not negative; the makespan\<close>

lemma set_push: "set (push e q) = insert e (set q)"
  by (simp add: push_def)

lemma length_push: "length (push e q) = Suc (length q)"
  by (simp add: push_def)

lemma assignStage1_sel:
  "currentTime (fst (assignStage1 (s, q) jid job kit b bi)) = currentTime s"
  "jobsMap (fst (assignStage1 (s, q) jid job kit b bi)) = jobsMap s"
  "stage1Queue (fst (assignStage1 (s, q) jid job kit b bi)) = tl (stage1Queue s)"
  "stage2Queue (fst (assignStage1 (s, q) jid job kit b bi)) = stage2Queue s"
  "butlast (completedJobs (fst (assignStage1 (s, q) jid job kit b bi))) = completedJobs s"
  "length (completedJobs (fst (assignStage1 (s, q) jid job kit b bi))) = Suc (length (completedJobs s))"
  "length (snd (assignStage1 (s, q) jid job kit b bi)) = Suc (length q)"
  by (simp_all add: assignStage1_def Let_def length_push)

lemma assignStage2_sel:
  "currentTime (fst (assignStage2 (s, q) jid job bi st1)) = currentTime s"
  "jobsMap (fst (assignStage2 (s, q) jid job bi st1)) = jobsMap s"
  "stage1Queue (fst (assignStage2 (s, q) jid job bi st1)) = stage1Queue s"
  "stage2Queue (fst (assignStage2 (s, q) jid job bi st1)) = tl (stage2Queue s)"
  "setupKits (fst (assignStage2 (s, q) jid job bi st1)) = setupKits s"
  "butlast (completedJobs (fst (assignStage2 (s, q) jid job bi st1))) = completedJobs s"
  "length (completedJobs (fst (assignStage2 (s, q) jid job bi st1))) = Suc (length (completedJobs s))"
  "length (snd (assignStage2 (s, q) jid job bi st1)) = Suc (length q)"
  by (simp_all add: assignStage2_def Let_def length_push)

lemma stage1SetupTime_nonneg: "stage1SetupTime job kit m = Some st \<Longrightarrow> 0 \<le> st"
  by (auto simp: stage1SetupTime_def SETUP_TIME_SMD_MINOR_def SETUP_TIME_SMD_MAJOR_def
           split: if_splits)

lemma timesOK_assignStage1:
  assumes "timesOK (s, q)" and "jobsMap s jid = Some job" and "0 \<le> bestSetupTime b"
  shows "timesOK (assignStage1 (s, q) jid job kit b bi)"
proof -
  have t: "0 \<le> t_smd job" and c: "0 \<le> currentTime s"
    using assms(1,2) by (auto simp: timesOK_def)
  show ?thesis
    using assms t c
    by (auto simp: timesOK_def assignStage1_def Let_def set_push max_def)
qed

lemma timesOK_stage1Step: "timesOK sq \<Longrightarrow> stage1Step sq = Some sq' \<Longrightarrow> timesOK sq'"
proof -
  assume a: "timesOK sq" and b: "stage1Step sq = Some sq'"
  obtain s q where sq: "sq = (s, q)" by (cases sq)
  from stage1Step_SomeD [OF b [unfolded sq]] obtain jid rest job kit bi where
    d: "jobsMap s jid = Some job"
       "bestMachine (scanMachines s job kit (stageIndices Stage1 (machines s)) noBest) = Some bi"
       "sq' = assignStage1 (s, q) jid job kit
                (scanMachines s job kit (stageIndices Stage1 (machines s)) noBest) bi"
    by blast
  let ?b = "scanMachines s job kit (stageIndices Stage1 (machines s)) noBest"
  have "bestOK s job kit ?b" by (rule scanMachines_bestOK [OF bestOK_noBest])
  then have "0 \<le> bestSetupTime ?b"
    using d(2) stage1SetupTime_nonneg by (auto simp: bestOK_def)
  then show ?thesis using timesOK_assignStage1 a sq d by simp
qed

lemma timesOK_stage2Step: "timesOK sq \<Longrightarrow> stage2Step sq = Inr (Some sq') \<Longrightarrow> timesOK sq'"
proof -
  assume a: "timesOK sq" and b: "stage2Step sq = Inr (Some sq')"
  obtain s q where sq: "sq = (s, q)" by (cases sq)
  from stage2Step_SomeD [OF b [unfolded sq]] obtain jid job bi stage1Job where
    d: "jobsMap s jid = Some job" "sq' = assignStage2 (s, q) jid job bi stage1Job"
    by blast
  have t: "0 \<le> t_aoi job" and c: "0 \<le> currentTime s"
    using a sq d(1) by (auto simp: timesOK_def)
  show ?thesis
    using a sq t c unfolding d(2)
    by (auto simp: timesOK_def assignStage2_def Let_def set_push max_def SETUP_TIME_AOI_def)
qed

lemma map_of_rev_mem: "map_of (rev (map (\<lambda>j. (f j, j)) js)) i = Some job \<Longrightarrow> job \<in> set js"
  by (auto dest!: map_of_SomeD)

lemma timesOK_init:
  "\<forall>j \<in> set js. 0 \<le> t_smd j \<and> 0 \<le> t_aoi j \<Longrightarrow> timesOK (initializeState js sq0, [])"
  by (auto simp: timesOK_def initializeState_def dest!: map_of_rev_mem)

lemma timesOK_clock: "timesOK (s, e # q) \<Longrightarrow> timesOK (s\<lparr>currentTime := e_time e\<rparr>, q)"
  by (simp add: timesOK_def)

lemma timesOK_clear:
  "timesOK (s, q) \<Longrightarrow> timesOK (s\<lparr>machines := clearCurrentJob mid (machines s)\<rparr>, q)"
  by (simp add: timesOK_def)

lemma timesOK_enq: "timesOK (s, q) \<Longrightarrow> timesOK (s\<lparr>stage2Queue := stage2Queue s @ [g]\<rparr>, q)"
  by (simp add: timesOK_def)

lemma timesOK_simulate:
  assumes "\<forall>j \<in> set js. 0 \<le> t_smd j \<and> 0 \<le> t_aoi j"
      and "simulate n js sq0 = Inr (left, sq')"
  shows "timesOK sq'"
  using assms(2)
  by (rule simulate_invariant [where P = timesOK, rotated -1])
     (assumption | rule timesOK_init [OF assms(1)] timesOK_clock timesOK_clear timesOK_enq
        | erule timesOK_stage1Step timesOK_stage2Step)+

lemma fold_max_Max: "fold max xs (a::real) = Max (insert a (set xs))"
  using Max.set_eq_fold [of a xs] by simp

lemma makespan_buildSchedule:
  assumes "\<forall>r \<in> set (completedJobs s). 0 \<le> endTime r"
  shows "makespan (buildSchedule s) =
           (if completedJobs s = [] then 0 else Max (endTime ` set (completedJobs s)))"
proof (cases "completedJobs s = []")
  case True
  then show ?thesis by (simp add: buildSchedule_def)
next
  case False
  let ?E = "endTime ` set (completedJobs s)"
  have fin: "finite ?E" and ne: "?E \<noteq> {}" using False by auto
  have "Max ?E \<in> ?E" using fin ne by (rule Max_in)
  then have "0 \<le> Max ?E" using assms by auto
  then have "Max (insert 0 ?E) = Max ?E" using fin ne by (simp add: max_def)
  then show ?thesis using False by (simp add: buildSchedule_def Let_def fold_max_Max)
qed

lemma jobs_buildSchedule: "jobs (buildSchedule s) = completedJobs s"
  by (simp add: buildSchedule_def Let_def)

lemma makespan_buildSchedule_any:
  "makespan (buildSchedule s) = Max (insert 0 (endTime ` set (completedJobs s)))"
  by (simp add: buildSchedule_def Let_def fold_max_Max)

text \<open>
  C9 (as amended). For every input \<open>runSimulation\<close> returns a Schedule whose makespan
  is the largest of 0 and the \<open>endTime\<close>s of its ScheduledJobs. For jobs with
  processing times that are not negative this is the largest \<open>endTime\<close> of its
  ScheduledJobs, and 0 when it has none; and on the empty job list with the empty
  sequence the Schedule has no ScheduledJobs, makespan 0 and every metric 0, without an
  error.
\<close>

theorem makespan_is_max_endTime:
  "(\<exists>sch. runSimulation js sq0 = Inr sch \<and>
      makespan sch = Max (insert 0 (endTime ` set (jobs sch)))) \<and>
   ((\<forall>j \<in> set js. 0 \<le> t_smd j \<and> 0 \<le> t_aoi j) \<longrightarrow>
      (\<exists>sch. runSimulation js sq0 = Inr sch \<and>
         makespan sch = (if jobs sch = [] then 0 else Max (endTime ` set (jobs sch))))) \<and>
   runSimulation [] [] =
     Inr \<lparr>jobs = [], makespan = 0, totalTardiness = 0, averageTardiness = 0,
          setupCount = 0, minorSetupCount = 0, majorSetupCount = 0, aoiSetupCount = 0,
          utilization_stage1 = 0, utilization_stage2 = 0\<rparr>"
proof (intro conjI)
  obtain left sq' where r: "simulate maxIterations js sq0 = Inr (left, sq')"
    and s: "runSimulation js sq0 = Inr (buildSchedule (fst sq'))"
    using runSimulation_Inr by blast
  show "\<exists>sch. runSimulation js sq0 = Inr sch \<and>
      makespan sch = Max (insert 0 (endTime ` set (jobs sch)))"
    using s makespan_buildSchedule_any [of "fst sq'"] by (simp add: jobs_buildSchedule)
next
  show "(\<forall>j \<in> set js. 0 \<le> t_smd j \<and> 0 \<le> t_aoi j) \<longrightarrow>
      (\<exists>sch. runSimulation js sq0 = Inr sch \<and>
         makespan sch = (if jobs sch = [] then 0 else Max (endTime ` set (jobs sch))))"
  proof
    assume pos: "\<forall>j \<in> set js. 0 \<le> t_smd j \<and> 0 \<le> t_aoi j"
    obtain left sq' where r: "simulate maxIterations js sq0 = Inr (left, sq')"
      and s: "runSimulation js sq0 = Inr (buildSchedule (fst sq'))"
      using runSimulation_Inr by blast
    have "timesOK sq'" using timesOK_simulate [OF pos r] .
    then have "\<forall>r \<in> set (completedJobs (fst sq')). 0 \<le> endTime r"
      by (simp add: timesOK_def)
    from makespan_buildSchedule [OF this] show
      "\<exists>sch. runSimulation js sq0 = Inr sch \<and>
         makespan sch = (if jobs sch = [] then 0 else Max (endTime ` set (jobs sch)))"
      using s by (simp add: jobs_buildSchedule)
  qed
next
  show "runSimulation [] [] =
     Inr \<lparr>jobs = [], makespan = 0, totalTardiness = 0, averageTardiness = 0,
          setupCount = 0, minorSetupCount = 0, majorSetupCount = 0, aoiSetupCount = 0,
          utilization_stage1 = 0, utilization_stage2 = 0\<rparr>"
    by code_simp
qed

lemma runSimulation_single_job:
  "runSimulation [exJob 1 100 1 10 5] [Some 1] =
     Inr \<lparr>jobs =
        [\<lparr>jobId = 1, machineId = 1, sj_stage = Stage1, startTime = 65,
            endTime = 75, setupTime = 65, setupType = SetupMajor,
            setupStartTime = Some 0, processingTime = 10, sj_family = 1,
            isLate = False, tardiness = 0\<rparr>,
         \<lparr>jobId = 1, machineId = 5, sj_stage = Stage2, startTime = 100,
            endTime = 105, setupTime = 25, setupType = SetupAoi,
            setupStartTime = Some 75, processingTime = 5, sj_family = 1,
            isLate = True, tardiness = 5\<rparr>],
        makespan = 105, totalTardiness = 5, averageTardiness = 5,
        setupCount = 2, minorSetupCount = 0, majorSetupCount = 1,
        aoiSetupCount = 1, utilization_stage1 = 5 / 28,
        utilization_stage2 = 2 / 35\<rparr>"
  by code_simp

theorem makespan_is_max_endTime_witness:
  "\<exists>sch. runSimulation [exJob 1 100 1 10 5] [Some 1] = Inr sch \<and> jobs sch \<noteq> [] \<and>
     makespan sch = Max (endTime ` set (jobs sch)) \<and> makespan sch = 105"
proof -
  have "\<forall>j \<in> set [exJob 1 100 1 10 5]. 0 \<le> t_smd j \<and> 0 \<le> t_aoi j"
    by (simp add: exJob_def)
  with makespan_is_max_endTime [of "[exJob 1 100 1 10 5]" "[Some 1]", THEN conjunct2, THEN conjunct1]
  obtain sch where s: "runSimulation [exJob 1 100 1 10 5] [Some 1] = Inr sch"
    and m: "makespan sch = (if jobs sch = [] then 0 else Max (endTime ` set (jobs sch)))"
    by blast
  have "jobs sch \<noteq> []" "makespan sch = 105"
    using s unfolding runSimulation_single_job by auto
  then show ?thesis using s m by auto
qed

lemma negative_times_example:
  "runSimulation [exJob 1 100 1 (- 100) (- 50)] [Some 1] =
     Inr \<lparr>jobs =
        [\<lparr>jobId = 1, machineId = 1, sj_stage = Stage1, startTime = 65,
            endTime = - 35, setupTime = 65, setupType = SetupMajor,
            setupStartTime = Some 0, processingTime = - 100, sj_family = 1,
            isLate = False, tardiness = 0\<rparr>,
         \<lparr>jobId = 1, machineId = 5, sj_stage = Stage2, startTime = 25,
            endTime = - 25, setupTime = 25, setupType = SetupAoi,
            setupStartTime = Some 0, processingTime = - 50, sj_family = 1,
            isLate = False, tardiness = 0\<rparr>],
        makespan = 0, totalTardiness = 0, averageTardiness = 0,
        setupCount = 2, minorSetupCount = 0, majorSetupCount = 1,
        aoiSetupCount = 1, utilization_stage1 = 0,
        utilization_stage2 = 0\<rparr>"
  by code_simp

text \<open>
  C9 (as stated) fails for a job with negative processing times, which the engine
  accepts: the job \<open>(id 1, due 100, family 1, t_smd -100, t_aoi -50)\<close> gives the end
  times -35 and -25, and \<open>Math.max(...ends, 0)\<close> gives the makespan 0, not -25.
\<close>

theorem makespan_negative_times_counterexample:
  "\<exists>sch. runSimulation [exJob 1 100 1 (- 100) (- 50)] [Some 1] = Inr sch \<and>
     map endTime (jobs sch) = [- 35, - 25] \<and>
     Max (endTime ` set (jobs sch)) = - 25 \<and>
     makespan sch = 0 \<and>
     makespan sch \<noteq> Max (endTime ` set (jobs sch))"
  unfolding negative_times_example by simp

section \<open>Every family of a job has a kit\<close>

lemma assignStage1_setupKits:
  "setupKits (fst (assignStage1 (s, q) jid job kit b bi)) =
     (setupKits s)(family job \<mapsto>
        kit\<lparr>currentMachine := Some (m_id (machines s ! bi)),
            k_availableAt := endTime (last (completedJobs (fst (assignStage1 (s, q) jid job kit b bi))))\<rparr>)"
  by (simp add: assignStage1_def Let_def)

lemma kitsOK_stage1Step: "kitsOK sq \<Longrightarrow> stage1Step sq = Some sq' \<Longrightarrow> kitsOK sq'"
proof -
  assume a: "kitsOK sq" and b: "stage1Step sq = Some sq'"
  obtain s q where sq: "sq = (s, q)" by (cases sq)
  let ?b = "scanMachines s job kit (stageIndices Stage1 (machines s)) noBest"
  from stage1Step_SomeD [OF b [unfolded sq]] obtain jid rest job kit bi where
    d: "jobsMap s jid = Some job" "setupKits s (family job) = Some kit"
       "bestMachine (scanMachines s job kit (stageIndices Stage1 (machines s)) noBest) = Some bi"
       "sq' = assignStage1 (s, q) jid job kit
                (scanMachines s job kit (stageIndices Stage1 (machines s)) noBest) bi"
    by blast
  have bi: "bi \<in> set (stageIndices Stage1 (machines s))"
    using scanMachines_mem [OF d(3)] by (simp add: noBest_def)
  have sh: "shapeOf (machines (fst sq')) = shapeOf (machines s)"
    unfolding d(4) by (rule assignStage1_machines_shape)
  have ix: "stageIndices Stage1 (machines (fst sq')) = stageIndices Stage1 (machines s)"
    by (rule stageIndices_shape [OF sh])
  have ids: "\<And>i. i \<in> set (stageIndices Stage1 (machines s)) \<Longrightarrow>
                 m_id (machines (fst sq') ! i) = m_id (machines s ! i)"
    using shapeOf_nth [OF sh] shapeOf_length [OF sh] by (simp add: stageIndices_mem)
  have "shapeOK sq" using a by (simp add: kitsOK_def)
  then have 1: "shapeOK sq'" using b by (rule shapeOK_stage1Step)
  have 2: "\<forall>i job. jobsMap (fst sq') i = Some job \<longrightarrow> setupKits (fst sq') (family job) \<noteq> None"
    using a sq unfolding d(4) assignStage1_setupKits
    by (auto simp: kitsOK_def assignStage1_sel)
  have 3: "\<forall>f k. setupKits (fst sq') f = Some k \<longrightarrow>
          currentMachine k = None \<or>
          (\<exists>i \<in> set (stageIndices Stage1 (machines (fst sq'))).
              currentMachine k = Some (m_id (machines (fst sq') ! i)))"
  proof (intro allI impI)
    fix f k assume k: "setupKits (fst sq') f = Some k"
    show "currentMachine k = None \<or>
          (\<exists>i \<in> set (stageIndices Stage1 (machines (fst sq'))).
              currentMachine k = Some (m_id (machines (fst sq') ! i)))"
    proof (cases "f = family job")
      case True
      then have "currentMachine k = Some (m_id (machines s ! bi))"
        using k unfolding d(4) assignStage1_setupKits by auto
      then show ?thesis using bi ids ix by auto
    next
      case False
      then have "setupKits s f = Some k"
        using k unfolding d(4) assignStage1_setupKits by auto
      then have "currentMachine k = None \<or>
          (\<exists>i \<in> set (stageIndices Stage1 (machines s)).
              currentMachine k = Some (m_id (machines s ! i)))"
        using a sq by (auto simp: kitsOK_def)
      then show ?thesis using ids ix by auto
    qed
  qed
  show ?thesis using 1 2 3 by (simp add: kitsOK_def)
qed

lemma kitsOK_machines:
  assumes "kitsOK (s, q)" and "shapeOf ms' = shapeOf (machines s)"
  shows "kitsOK (s\<lparr>machines := ms'\<rparr>, q')"
proof -
  have ix: "stageIndices Stage1 ms' = stageIndices Stage1 (machines s)"
    by (rule stageIndices_shape [OF assms(2)])
  have ids: "\<And>i. i \<in> set (stageIndices Stage1 (machines s)) \<Longrightarrow>
                 m_id (ms' ! i) = m_id (machines s ! i)"
    using shapeOf_nth [OF assms(2)] shapeOf_length [OF assms(2)] by (simp add: stageIndices_mem)
  show ?thesis using assms ix ids by (auto simp: kitsOK_def shapeOK_def)
qed

lemma kitsOK_stage2Step: "kitsOK sq \<Longrightarrow> stage2Step sq = Inr (Some sq') \<Longrightarrow> kitsOK sq'"
proof -
  assume a: "kitsOK sq" and b: "stage2Step sq = Inr (Some sq')"
  obtain s q where sq: "sq = (s, q)" by (cases sq)
  from stage2Step_SomeD [OF b [unfolded sq]] obtain jid job bi stage1Job where
    d: "sq' = assignStage2 (s, q) jid job bi stage1Job"
    by blast
  let ?ms' = "machines (fst sq')"
  have sh: "shapeOf ?ms' = shapeOf (machines s)"
    unfolding d by (rule assignStage2_machines_shape)
  have "kitsOK (s\<lparr>machines := ?ms'\<rparr>, snd sq')"
    by (rule kitsOK_machines [OF a [unfolded sq] sh])
  then show ?thesis unfolding d
    by (simp add: kitsOK_def shapeOK_def assignStage2_def Let_def)
qed

lemma kitsOK_clock: "kitsOK (s, e # q) \<Longrightarrow> kitsOK (s\<lparr>currentTime := t\<rparr>, q)"
  by (simp add: kitsOK_def shapeOK_def)

lemma kitsOK_clear:
  "kitsOK (s, q) \<Longrightarrow> kitsOK (s\<lparr>machines := clearCurrentJob mid (machines s)\<rparr>, q)"
  by (rule kitsOK_machines) (simp_all add: clearCurrentJob_shape)

lemma kitsOK_enq: "kitsOK (s, q) \<Longrightarrow> kitsOK (s\<lparr>stage2Queue := stage2Queue s @ [g]\<rparr>, q)"
  by (simp add: kitsOK_def shapeOK_def)

lemma map_of_family_kit:
  "job \<in> set js \<Longrightarrow> map_of (map (\<lambda>j. (family j, newKit (family j))) js) (family job) \<noteq> None"
  by (induction js) auto

lemma map_of_family_kit_new:
  "map_of (map (\<lambda>j. (family j, newKit (family j))) js) f = Some k \<Longrightarrow> currentMachine k = None"
  by (auto dest!: map_of_SomeD simp: newKit_def)

lemma kitsOK_init: "kitsOK (initializeState js sq0, [])"
  unfolding kitsOK_def
proof (intro conjI allI impI)
  show "shapeOK (initializeState js sq0, [])" by (rule shapeOK_init)
next
  fix i job assume "jobsMap (fst (initializeState js sq0, [])) i = Some job"
  then have "job \<in> set js" by (auto simp: initializeState_def dest!: map_of_rev_mem)
  then show "setupKits (fst (initializeState js sq0, [])) (family job) \<noteq> None"
    using map_of_family_kit by (simp add: initializeState_def)
next
  fix f k assume "setupKits (fst (initializeState js sq0, [])) f = Some k"
  then have "currentMachine k = None"
    using map_of_family_kit_new by (simp add: initializeState_def)
  then show "currentMachine k = None \<or>
         (\<exists>i\<in>set (stageIndices Stage1 (machines (fst (initializeState js sq0, [])))).
             currentMachine k = Some (m_id (machines (fst (initializeState js sq0, [])) ! i)))"
    by simp
qed

section \<open>The stage-1 queue blocks at the first unknown id\<close>

text \<open>A known job at the head of the stage-1 queue is always assigned.\<close>

lemma stage1Step_progress:
  assumes ok: "kitsOK (s, q)" and hd: "stage1Queue s = Some jid # rest"
      and job: "jobsMap s jid = Some job"
  shows "stage1Step (s, q) \<noteq> None"
proof -
  have "setupKits s (family job) \<noteq> None"
    using ok job unfolding kitsOK_def fst_conv by blast
  then obtain kit where kit: "setupKits s (family job) = Some kit" by blast
  let ?is = "stageIndices Stage1 (machines s)"
  let ?b = "scanMachines s job kit ?is noBest"
  have idx: "?is = [0, 1, 2, 3]" using shapeOK_stage1_indices [of "(s, q)"] ok
    by (simp add: kitsOK_def)
  have "\<exists>j \<in> set ?is. stage1SetupTime job kit (machines s ! j) \<noteq> None"
  proof (cases "currentMachine kit")
    case None
    then have "stage1SetupTime job kit (machines s ! 0) \<noteq> None"
      by (simp add: stage1SetupTime_def)
    then show ?thesis using idx by auto
  next
    case (Some m)
    have "currentMachine kit = None \<or>
          (\<exists>i \<in> set ?is. currentMachine kit = Some (m_id (machines s ! i)))"
      using ok kit unfolding kitsOK_def fst_conv by blast
    then obtain i where "i \<in> set ?is" "m = m_id (machines s ! i)"
      using Some by auto
    then show ?thesis using Some by (auto simp: stage1SetupTime_def)
  qed
  then obtain j st where "j \<in> set ?is" "stage1SetupTime job kit (machines s ! j) = Some st"
    by auto
  from scanMachines_min [OF this] obtain t where "bestStartTime ?b = Some t" by blast
  moreover have "bestOK s job kit ?b" by (rule scanMachines_bestOK [OF bestOK_noBest])
  ultimately have "bestMachine ?b \<noteq> None"
    by (cases "bestMachine ?b") (simp_all add: bestOK_def)
  then show ?thesis using hd job kit
    by (auto simp: stage1Step_def getJob_def Let_def)
qed

lemma tryAssignStage1Jobs_blocked: "stage1Step (tryAssignStage1Jobs sq) = None"
proof (induction sq rule: tryAssignStage1Jobs.induct)
  case (1 sq)
  show ?case
  proof (cases "stage1Step sq")
    case None
    then show ?thesis by (simp add: tryAssignStage1Jobs.simps [of sq])
  next
    case (Some sq')
    then show ?thesis using "1.IH" by (simp add: tryAssignStage1Jobs.simps [of sq])
  qed
qed

lemma getJob_initial: "getJob (jobsMap (initializeState js sq0)) g \<noteq> None \<longleftrightarrow> knownJob js g"
proof (cases g)
  case None
  then show ?thesis by (simp add: getJob_def knownJob_def)
next
  case (Some i)
  have "map_of (rev (map (\<lambda>j. (j_id j, j)) js)) i \<noteq> None \<longleftrightarrow> i \<in> j_id ` set js"
    by (simp add: map_of_eq_None_iff image_image)
  then show ?thesis using Some by (simp add: getJob_def knownJob_def initializeState_def)
qed

lemma queueInv_init: "queueInv js sq0 (initializeState js sq0, [])"
  using kitsOK_init [of js sq0]
  by (simp add: queueInv_def stage1Ids_def) (simp add: initializeState_def)

lemma assignStage1_completed:
  "\<exists>r. completedJobs (fst (assignStage1 (s, q) jid job kit b bi)) = completedJobs s @ [r] \<and>
       jobId r = jid \<and> sj_stage r = Stage1 \<and> sj_family r = family job \<and>
       machineId r = m_id (machines s ! bi)"
  by (simp add: assignStage1_def Let_def)

lemma assignStage2_completed:
  "\<exists>r. completedJobs (fst (assignStage2 (s, q) jid job bi st1)) = completedJobs s @ [r] \<and>
       jobId r = jid \<and> sj_stage r = Stage2"
  by (simp add: assignStage2_def Let_def)

lemma queueInv_stage1Step:
  assumes a: "queueInv js sq0 sq" and b: "stage1Step sq = Some sq'"
  shows "queueInv js sq0 sq'"
proof -
  obtain s q where sq: "sq = (s, q)" by (cases sq)
  from stage1Step_SomeD [OF b [unfolded sq]] obtain jid rest job kit bi where
    d: "stage1Queue s = Some jid # rest" "jobsMap s jid = Some job"
       "sq' = assignStage1 (s, q) jid job kit
                (scanMachines s job kit (stageIndices Stage1 (machines s)) noBest) bi"
    by blast
  obtain r where r: "completedJobs (fst sq') = completedJobs s @ [r]"
      "jobId r = jid" "sj_stage r = Stage1"
    unfolding d(3) using assignStage1_completed by blast
  have "kitsOK sq" using a by (simp add: queueInv_def)
  then have k: "kitsOK sq'" using b by (rule kitsOK_stage1Step)
  have jm: "jobsMap (fst sq') = jobsMap s" unfolding d(3) by (simp add: assignStage1_sel)
  have q1: "stage1Queue (fst sq') = rest" unfolding d(3) using d(1) by (simp add: assignStage1_sel)
  have ids: "stage1Ids (completedJobs (fst sq')) = stage1Ids (completedJobs s) @ [Some jid]"
    using r by (simp add: stage1Ids_def)
  have "getJob (jobsMap (initializeState js sq0)) (Some jid) \<noteq> None"
    using a sq d(2) by (simp add: queueInv_def getJob_def)
  then have kn: "knownJob js (Some jid)" using getJob_initial [of js sq0 "Some jid"] by blast
  show ?thesis
    using a sq k jm q1 ids kn d(1) by (simp add: queueInv_def)
qed

lemma queueInv_stage2Step:
  assumes a: "queueInv js sq0 sq" and b: "stage2Step sq = Inr (Some sq')"
  shows "queueInv js sq0 sq'"
proof -
  obtain s q where sq: "sq = (s, q)" by (cases sq)
  from stage2Step_SomeD [OF b [unfolded sq]] obtain jid job bi stage1Job where
    d: "sq' = assignStage2 (s, q) jid job bi stage1Job"
    by blast
  obtain r where r: "completedJobs (fst sq') = completedJobs s @ [r]" "sj_stage r = Stage2"
    unfolding d using assignStage2_completed by blast
  have "kitsOK sq" using a by (simp add: queueInv_def)
  then have k: "kitsOK sq'" using b by (rule kitsOK_stage2Step)
  have ids: "stage1Ids (completedJobs (fst sq')) = stage1Ids (completedJobs s)"
    using r by (simp add: stage1Ids_def)
  show ?thesis
    using a sq k ids unfolding queueInv_def d by (simp add: assignStage2_sel)
qed

lemma queueInv_clock:
  "queueInv js sq0 (s, e # q) \<Longrightarrow> queueInv js sq0 (s\<lparr>currentTime := t\<rparr>, q)"
  using kitsOK_clock [of s e q t] by (simp add: queueInv_def)

lemma queueInv_clear:
  "queueInv js sq0 (s, q) \<Longrightarrow>
     queueInv js sq0 (s\<lparr>machines := clearCurrentJob mid (machines s)\<rparr>, q)"
  using kitsOK_clear [of s q mid] by (simp add: queueInv_def)

lemma queueInv_enq:
  "queueInv js sq0 (s, q) \<Longrightarrow> queueInv js sq0 (s\<lparr>stage2Queue := stage2Queue s @ [g]\<rparr>, q)"
  using kitsOK_enq [of s q g] by (simp add: queueInv_def)

lemma blocked_no_step:
  assumes "queueInv js sq0 sq" and "blocked js sq"
  shows "stage1Step sq = None"
proof (cases "stage1Queue (fst sq)")
  case Nil
  then show ?thesis by (simp add: stage1Step_def)
next
  case (Cons g rest)
  then have "\<not> knownJob js g" using assms(2) by (simp add: blocked_def)
  then have "getJob (jobsMap (fst sq)) g = None"
    using assms(1) getJob_initial [of js sq0 g] by (simp add: queueInv_def)
  then show ?thesis using Cons by (simp add: stage1Step_def)
qed

lemma no_step_blocked:
  assumes inv: "queueInv js sq0 sq" and n: "stage1Step sq = None"
  shows "blocked js sq"
proof (cases "stage1Queue (fst sq)")
  case Nil
  then show ?thesis by (simp add: blocked_def)
next
  case (Cons g rest)
  obtain s q where sq: "sq = (s, q)" by (cases sq)
  have "\<not> knownJob js g"
  proof
    assume "knownJob js g"
    then have "getJob (jobsMap s) g \<noteq> None"
      using inv sq getJob_initial [of js sq0 g] by (simp add: queueInv_def)
    then obtain jid job where "g = Some jid" "jobsMap s jid = Some job"
      by (cases g) (auto simp: getJob_def)
    moreover have "kitsOK (s, q)" using inv sq by (simp add: queueInv_def)
    ultimately have "stage1Step (s, q) \<noteq> None"
      using stage1Step_progress Cons sq by simp
    then show False using n sq by simp
  qed
  then show ?thesis using Cons by (simp add: blocked_def)
qed

lemma drained_stage1Step: "drained js sq0 sq \<Longrightarrow> stage1Step sq = Some sq' \<Longrightarrow> drained js sq0 sq'"
proof -
  assume a: "drained js sq0 sq" and b: "stage1Step sq = Some sq'"
  have "stage1Step sq = None"
    by (rule blocked_no_step [of js sq0]) (use a in \<open>simp_all add: drained_def\<close>)
  then show ?thesis using b by simp
qed

lemma drained_stage2Step:
  assumes a: "drained js sq0 sq" and b: "stage2Step sq = Inr (Some sq')"
  shows "drained js sq0 sq'"
proof -
  obtain s q where sq: "sq = (s, q)" by (cases sq)
  from stage2Step_SomeD [OF b [unfolded sq]] obtain jid job bi stage1Job where
    d: "sq' = assignStage2 (s, q) jid job bi stage1Job"
    by blast
  have "stage1Queue (fst sq') = stage1Queue (fst sq)"
    unfolding d sq by (simp add: assignStage2_sel)
  then have "blocked js sq'" using a by (simp add: drained_def blocked_def)
  moreover have "queueInv js sq0 sq'"
    by (rule queueInv_stage2Step [OF _ b]) (use a in \<open>simp add: drained_def\<close>)
  ultimately show ?thesis by (simp add: drained_def)
qed

lemma drained_clock: "drained js sq0 (s, e # q) \<Longrightarrow> drained js sq0 (s\<lparr>currentTime := t\<rparr>, q)"
  using queueInv_clock [of js sq0 s e q t] by (simp add: drained_def blocked_def)

lemma drained_clear:
  "drained js sq0 (s, q) \<Longrightarrow> drained js sq0 (s\<lparr>machines := clearCurrentJob mid (machines s)\<rparr>, q)"
  using queueInv_clear [of js sq0 s q mid] by (simp add: drained_def blocked_def)

lemma drained_enq:
  "drained js sq0 (s, q) \<Longrightarrow> drained js sq0 (s\<lparr>stage2Queue := stage2Queue s @ [g]\<rparr>, q)"
  using queueInv_enq [of js sq0 s q g] by (simp add: drained_def blocked_def)

lemma drained_first: "drained js sq0 (tryAssignStage1Jobs (initializeState js sq0, []))"
proof -
  have "queueInv js sq0 (tryAssignStage1Jobs (initializeState js sq0, []))"
    by (rule tryAssignStage1Jobs_preserves [where P = "queueInv js sq0"])
       (assumption | rule queueInv_init | erule queueInv_stage1Step)+
  then show ?thesis
    using no_step_blocked tryAssignStage1Jobs_blocked by (simp add: drained_def)
qed

lemma drained_simulate:
  assumes "simulate n js sq0 = Inr (left, sq')"
  shows "drained js sq0 sq'"
proof -
  have r: "mainLoop n (tryAssignStage1Jobs (initializeState js sq0, [])) = Inr (left, sq')"
    using assms by (simp add: simulate_def)
  have ev: "\<And>e s q sq'. drained js sq0 (s, e # q) \<Longrightarrow> processEvent e (s, q) = Inr sq'
              \<Longrightarrow> drained js sq0 sq'"
    by (rule processEvent_preserves [where P = "drained js sq0"])
       (assumption | rule drained_clock drained_clear drained_enq | erule drained_stage2Step)+
  show ?thesis
    by (rule mainLoop_preserves [where P = "drained js sq0", OF _ _ drained_first r])
       (assumption | erule ev drained_stage1Step)+
qed

lemma drained_split:
  assumes "drained js sq0 sq"
  shows "stage1Ids (completedJobs (fst sq)) = takeWhile (knownJob js) sq0 \<and>
         stage1Queue (fst sq) = dropWhile (knownJob js) sq0"
proof -
  let ?ids = "stage1Ids (completedJobs (fst sq))" and ?qu = "stage1Queue (fst sq)"
  have e: "?ids @ ?qu = sq0" and k: "\<forall>g \<in> set ?ids. knownJob js g"
    using assms by (simp_all add: drained_def queueInv_def)
  have b: "?qu = [] \<or> \<not> knownJob js (hd ?qu)"
    using assms by (cases ?qu) (simp_all add: drained_def blocked_def)
  have t: "takeWhile (knownJob js) (?ids @ ?qu) = ?ids"
    using k b by (cases ?qu) (simp_all add: takeWhile_append2)
  have d: "dropWhile (knownJob js) (?ids @ ?qu) = ?qu"
    using k b by (cases ?qu) (simp_all add: dropWhile_append2)
  show ?thesis using t d e by simp
qed

section \<open>The number of passes of the main loop\<close>

lemma processEvent_cases:
  assumes "processEvent e (s, q) = Inr sq'"
  shows "(e_type e = STAGE1_COMPLETE \<and>
          tryAssignStage2Jobs
            (s\<lparr>currentTime := e_time e,
               machines := clearCurrentJob (e_machineId e) (machines s),
               stage2Queue := stage2Queue s @ [e_jobId e]\<rparr>, q) = Inr sq') \<or>
         (e_type e \<noteq> STAGE1_COMPLETE \<and> stage2Queue (fst sq') = stage2Queue s \<and>
          completedJobs (fst sq') = completedJobs s \<and> snd sq' = q)"
  using assms by (cases "e_type e") (auto simp: processEvent_def Let_def)

lemma balance_stage1Step: "stage1Step sq = Some sq' \<Longrightarrow> balance sq' = balance sq"
proof -
  assume b: "stage1Step sq = Some sq'"
  obtain s q where sq: "sq = (s, q)" by (cases sq)
  from stage1Step_SomeD [OF b [unfolded sq]] show ?thesis
    using sq by (auto simp: balance_def assignStage1_sel)
qed

lemma balance_stage2Step: "stage2Step sq = Inr (Some sq') \<Longrightarrow> balance sq' = balance sq"
proof -
  assume b: "stage2Step sq = Inr (Some sq')"
  obtain s q where sq: "sq = (s, q)" by (cases sq)
  from stage2Step_SomeD [OF b [unfolded sq]] show ?thesis
    using sq by (auto simp: balance_def assignStage2_sel)
qed

lemma balance_tryAssignStage1Jobs: "balance (tryAssignStage1Jobs sq) = balance sq"
  by (rule tryAssignStage1Jobs_preserves [where P = "\<lambda>x. balance x = balance sq"])
     (simp_all add: balance_stage1Step)

lemma balance_tryAssignStage2Jobs: "tryAssignStage2Jobs sq = Inr sq' \<Longrightarrow> balance sq' = balance sq"
  by (rule tryAssignStage2Jobs_preserves [where P = "\<lambda>x. balance x = balance sq"])
     (simp_all add: balance_stage2Step)

lemma balance_processEvent:
  assumes "processEvent e (s, q) = Inr sq'"
  shows "balance sq' = balance (s, q)"
  using processEvent_cases [OF assms]
proof
  assume "e_type e = STAGE1_COMPLETE \<and>
          tryAssignStage2Jobs
            (s\<lparr>currentTime := e_time e,
               machines := clearCurrentJob (e_machineId e) (machines s),
               stage2Queue := stage2Queue s @ [e_jobId e]\<rparr>, q) = Inr sq'"
  then show ?thesis using balance_tryAssignStage2Jobs by (fastforce simp: balance_def)
next
  assume "e_type e \<noteq> STAGE1_COMPLETE \<and> stage2Queue (fst sq') = stage2Queue s \<and>
          completedJobs (fst sq') = completedJobs s \<and> snd sq' = q"
  then show ?thesis by (simp add: balance_def)
qed

lemma mainLoop_balance:
  "mainLoop n sq = Inr (left, sq') \<Longrightarrow> left \<le> n \<and> balance sq' = balance sq + int (n - left)"
proof (induction n arbitrary: sq)
  case 0
  then show ?case by simp
next
  case (Suc n)
  obtain s q where sq: "sq = (s, q)" by (cases sq)
  show ?case
  proof (cases q)
    case Nil
    then show ?thesis using Suc.prems sq by (simp add: isEmpty_def)
  next
    case (Cons e q')
    show ?thesis
    proof (cases "processEvent e (s, q')")
      case (Inl err)
      then show ?thesis using Suc.prems sq Cons by (simp add: isEmpty_def pop_def)
    next
      case (Inr sq1)
      have b1: "balance sq1 = balance sq + 1"
        using balance_processEvent [OF Inr] sq Cons by (simp add: balance_def)
      have "mainLoop n (tryAssignStage1Jobs sq1) = Inr (left, sq')"
        using Suc.prems sq Cons Inr by (simp add: isEmpty_def pop_def)
      from Suc.IH [OF this] have "left \<le> n"
        and "balance sq' = balance sq1 + int (n - left)"
        by (simp_all add: balance_tryAssignStage1Jobs)
      then show ?thesis using b1 by simp
    qed
  qed
qed

lemma filter_push:
  "length (filter P (push e q)) = length (filter P q) + (if P e then 1 else 0)"
proof -
  have "mset (filter P (push e q)) = mset (filter P (q @ [e]))"
    by (simp add: push_def)
  then have "length (filter P (push e q)) = length (filter P (q @ [e]))"
    by (metis size_mset)
  then show ?thesis by simp
qed

lemma pending_stage1Step: "pending sq \<Longrightarrow> stage1Step sq = Some sq' \<Longrightarrow> pending sq'"
proof -
  assume a: "pending sq" and b: "stage1Step sq = Some sq'"
  obtain s q where sq: "sq = (s, q)" by (cases sq)
  from stage1Step_SomeD [OF b [unfolded sq]] show ?thesis
    using a sq by (auto simp: pending_def assignStage1_def Let_def filter_push)
qed

lemma pending_stage2Step: "pending sq \<Longrightarrow> stage2Step sq = Inr (Some sq') \<Longrightarrow> pending sq'"
proof -
  assume a: "pending sq" and b: "stage2Step sq = Inr (Some sq')"
  obtain s q where sq: "sq = (s, q)" by (cases sq)
  from stage2Step_SomeD [OF b [unfolded sq]] show ?thesis
    using a sq by (auto simp: pending_def assignStage2_def Let_def filter_push)
qed

lemma pending_processEvent:
  assumes a: "pending (s, e # q)" and r: "processEvent e (s, q) = Inr sq'"
  shows "pending sq'"
  using processEvent_cases [OF r]
proof
  assume c: "e_type e = STAGE1_COMPLETE \<and>
          tryAssignStage2Jobs
            (s\<lparr>currentTime := e_time e,
               machines := clearCurrentJob (e_machineId e) (machines s),
               stage2Queue := stage2Queue s @ [e_jobId e]\<rparr>, q) = Inr sq'"
  have "pending (s\<lparr>currentTime := e_time e,
               machines := clearCurrentJob (e_machineId e) (machines s),
               stage2Queue := stage2Queue s @ [e_jobId e]\<rparr>, q)"
    using a c by (simp add: pending_def)
  then show ?thesis
    using c tryAssignStage2Jobs_preserves [where P = pending] pending_stage2Step by blast
next
  assume c: "e_type e \<noteq> STAGE1_COMPLETE \<and> stage2Queue (fst sq') = stage2Queue s \<and>
          completedJobs (fst sq') = completedJobs s \<and> snd sq' = q"
  then show ?thesis using a by (simp add: pending_def)
qed

lemma pending_simulate:
  assumes "simulate n js sq0 = Inr (left, sq')"
  shows "pending sq'"
proof -
  have r: "mainLoop n (tryAssignStage1Jobs (initializeState js sq0, [])) = Inr (left, sq')"
    using assms by (simp add: simulate_def)
  have p0: "pending (tryAssignStage1Jobs (initializeState js sq0, []))"
    by (rule tryAssignStage1Jobs_preserves [where P = pending])
       (assumption | erule pending_stage1Step | simp add: pending_def initializeState_def)+
  show ?thesis
    by (rule mainLoop_preserves [where P = pending, OF _ _ p0 r])
       (assumption | erule pending_processEvent pending_stage1Step)+
qed

lemma simulate_records_bound:
  assumes "simulate n js sq0 = Inr (left, sq')"
  shows "length (completedJobs (fst sq')) + left = length (snd sq') + n \<and>
         length (completedJobs (fst sq')) \<le> 2 * length (takeWhile (knownJob js) sq0)"
proof -
  have r: "mainLoop n (tryAssignStage1Jobs (initializeState js sq0, [])) = Inr (left, sq')"
    using assms by (simp add: simulate_def)
  have "balance (tryAssignStage1Jobs (initializeState js sq0, [])) = 0"
    by (simp add: balance_tryAssignStage1Jobs) (simp add: balance_def initializeState_def)
  then have "left \<le> n" and "balance sq' = int (n - left)"
    using mainLoop_balance [OF r] by simp_all
  then have 1: "length (completedJobs (fst sq')) + left = length (snd sq') + n"
    by (simp add: balance_def)
  let ?cj = "completedJobs (fst sq')"
  have "length (filter (\<lambda>r. sj_stage r = Stage2) ?cj) \<le> length (filter (\<lambda>r. sj_stage r = Stage1) ?cj)"
    using pending_simulate [OF assms] by (simp add: pending_def)
  moreover have "length ?cj = length (filter (\<lambda>r. sj_stage r = Stage1) ?cj)
                  + length (filter (\<lambda>r. sj_stage r \<noteq> Stage1) ?cj)"
    using sum_length_filter_compl [of "\<lambda>r. sj_stage r = Stage1" ?cj] by simp
  moreover have "filter (\<lambda>r. sj_stage r \<noteq> Stage1) ?cj = filter (\<lambda>r. sj_stage r = Stage2) ?cj"
    by (rule filter_cong) (auto intro: stage.exhaust)
  moreover have "length (filter (\<lambda>r. sj_stage r = Stage1) ?cj) = length (takeWhile (knownJob js) sq0)"
    using drained_split [OF drained_simulate [OF assms]]
    by (metis length_map stage1Ids_def)
  ultimately have 2: "length ?cj \<le> 2 * length (takeWhile (knownJob js) sq0)" by simp
  show ?thesis using 1 2 by simp
qed

lemma no_warning:
  assumes "2 * length (takeWhile (knownJob js) sq0) < maxIterations"
  shows "\<not> warnsMaxIterations js sq0"
proof -
  obtain left sq' where r: "simulate maxIterations js sq0 = Inr (left, sq')"
    using simulate_total by blast
  from simulate_records_bound [OF r] assms have "left \<noteq> 0" by auto
  then show ?thesis using r by (simp add: warnsMaxIterations_def)
qed

section \<open>Kit exclusivity\<close>

lemma findIndex_Some:
  "findIndex p xs = Some i \<Longrightarrow> i < length xs \<and> p (xs ! i) \<and> (\<forall>j < i. \<not> p (xs ! j))"
proof (induction xs arbitrary: i)
  case Nil
  then show ?case by simp
next
  case (Cons x xs)
  show ?case
  proof (cases "p x")
    case True
    then show ?thesis using Cons.prems by simp
  next
    case False
    then obtain i' where i': "findIndex p xs = Some i'" "i = Suc i'"
      using Cons.prems by (auto split: option.splits)
    from Cons.IH [OF i'(1)] show ?thesis using False i'(2)
      by (auto simp: less_Suc_eq_0_disj)
  qed
qed

lemma findIndex_None: "findIndex p xs = None \<Longrightarrow> \<forall>x \<in> set xs. \<not> p x"
  by (induction xs) (auto split: if_splits option.splits)

lemma distinct_ids_index:
  assumes "distinct (map m_id ms)" "i < length ms" "j < length ms" "m_id (ms ! i) = m_id (ms ! j)"
  shows "i = j"
  using assms by (metis distinct_conv_nth length_map nth_map)

text \<open>The machines after a stage-1 assignment, slot by slot.\<close>

lemma mountKit_length: "length (mountKit ms bi jid t kit fam) = length ms"
  by (auto simp: mountKit_def Let_def split: option.splits)

lemma mountKit_other:
  assumes "i < length ms" "i \<noteq> bi"
  shows "currentSetupKit (mountKit ms bi jid t kit fam ! i) = None \<or>
         currentSetupKit (mountKit ms bi jid t kit fam ! i) = currentSetupKit (ms ! i)"
proof -
  define ms1 where "ms1 = ms[bi := (ms ! bi)\<lparr>currentJob := Some jid, m_availableAt := t\<rparr>]"
  have a: "currentSetupKit (ms1 ! i) = currentSetupKit (ms ! i)"
    using assms by (simp add: ms1_def)
  have b: "\<And>oi. currentSetupKit (ms1[oi := (ms1 ! oi)\<lparr>currentSetupKit := None\<rparr>] ! i) = None \<or>
              currentSetupKit (ms1[oi := (ms1 ! oi)\<lparr>currentSetupKit := None\<rparr>] ! i)
                = currentSetupKit (ms1 ! i)"
  proof -
    fix oi
    show "currentSetupKit (ms1[oi := (ms1 ! oi)\<lparr>currentSetupKit := None\<rparr>] ! i) = None \<or>
              currentSetupKit (ms1[oi := (ms1 ! oi)\<lparr>currentSetupKit := None\<rparr>] ! i)
                = currentSetupKit (ms1 ! i)"
      by (cases "oi = i"; cases "oi < length ms1") (simp_all add: list_update_beyond)
  qed
  show ?thesis
    using assms a b
    by (auto simp: mountKit_def Let_def ms1_def [symmetric] split: option.splits)
qed

lemma mountKit_best:
  assumes "bi < length ms"
  shows "currentSetupKit (mountKit ms bi jid t kit fam ! bi) = Some fam"
  using assms
  by (auto simp: mountKit_def Let_def nth_list_update split: option.splits)

lemma mountKit_cleared:
  assumes d: "distinct (map m_id ms)"
      and i: "i < length ms" "i \<noteq> bi" and bi: "bi < length ms"
      and k: "currentMachine kit = Some (m_id (ms ! i))"
  shows "currentSetupKit (mountKit ms bi jid t kit fam ! i) = None"
proof -
  have ne: "m_id (ms ! i) \<noteq> m_id (ms ! bi)"
    using distinct_ids_index [OF d i(1) bi] i(2) by blast
  define ms1 where "ms1 = ms[bi := (ms ! bi)\<lparr>currentJob := Some jid, m_availableAt := t\<rparr>]"
  have l1: "length ms1 = length ms" by (simp add: ms1_def)
  have nth1: "\<And>j. j < length ms \<Longrightarrow> m_id (ms1 ! j) = m_id (ms ! j)"
  proof -
    fix j assume "j < length ms"
    then show "m_id (ms1 ! j) = m_id (ms ! j)"
      by (cases "j = bi") (simp_all add: ms1_def)
  qed
  have "map m_id ms1 = map m_id ms"
    by (rule nth_equalityI) (simp_all add: l1 nth1)
  then have d1: "distinct (map m_id ms1)" using d by simp
  have "findIndex (\<lambda>m. Some (m_id m) = currentMachine kit) ms1 \<noteq> None"
  proof
    assume "findIndex (\<lambda>m. Some (m_id m) = currentMachine kit) ms1 = None"
    from findIndex_None [OF this] have "\<not> Some (m_id (ms1 ! i)) = currentMachine kit"
      using i(1) l1 by (metis nth_mem)
    then show False using k nth1 [OF i(1)] by simp
  qed
  then obtain oi where oi: "findIndex (\<lambda>m. Some (m_id m) = currentMachine kit) ms1 = Some oi"
    by blast
  from findIndex_Some [OF oi] have "oi < length ms1" "m_id (ms1 ! oi) = m_id (ms ! i)"
    using k by auto
  then have "oi = i" using distinct_ids_index [OF d1, of oi i] i(1) l1 nth1 [OF i(1)] by simp
  then have "mountKit ms bi jid t kit fam
           = (ms1[i := (ms1 ! i)\<lparr>currentSetupKit := None\<rparr>])
               [bi := ((ms1[i := (ms1 ! i)\<lparr>currentSetupKit := None\<rparr>]) ! bi)\<lparr>currentSetupKit := Some fam\<rparr>]"
    using oi k ne by (simp add: mountKit_def Let_def ms1_def [symmetric])
  then show ?thesis using i l1 by simp
qed

lemma mountKit_id:
  "i < length ms \<Longrightarrow> m_id (mountKit ms bi jid t kit fam ! i) = m_id (ms ! i)"
  using shapeOf_nth [of "mountKit ms bi jid t kit fam" ms i] mountKit_shape [of ms bi jid t kit fam]
    mountKit_length [of ms bi jid t kit fam]
  by simp

lemma mountedOK_stage1Step:
  assumes a: "mountedOK sq" and b: "stage1Step sq = Some sq'"
  shows "mountedOK sq'"
proof -
  obtain s q where sq: "sq = (s, q)" by (cases sq)
  let ?b = "scanMachines s job kit (stageIndices Stage1 (machines s)) noBest"
  from stage1Step_SomeD [OF b [unfolded sq]] obtain jid rest job kit bi where
    d: "setupKits s (family job) = Some kit"
       "bestMachine (scanMachines s job kit (stageIndices Stage1 (machines s)) noBest) = Some bi"
       "sq' = assignStage1 (s, q) jid job kit
                (scanMachines s job kit (stageIndices Stage1 (machines s)) noBest) bi"
    by blast
  let ?ms = "machines s" and ?ms' = "machines (fst sq')"
  obtain t where ms': "?ms' = mountKit ?ms bi jid t kit (family job)"
    unfolding d(3) using assignStage1_machines by blast
  have sh: "shapeOK sq" using a by (simp add: mountedOK_def)
  have dist: "distinct (map m_id ?ms)" using shapeOK_distinct_ids [OF sh] sq by simp
  have bi: "bi < length ?ms"
    using scanMachines_mem [OF d(2)] by (simp add: noBest_def stageIndices_mem)
  have len: "length ?ms' = length ?ms" by (simp add: ms' mountKit_length)
  have inv1: "\<And>i f. i < length ?ms \<Longrightarrow> currentSetupKit (?ms ! i) = Some f \<Longrightarrow>
      (\<exists>k. setupKits s f = Some k \<and> currentMachine k = Some (m_id (?ms ! i)))"
    using a sq by (simp add: mountedOK_def)
  have inv2: "\<And>r. r \<in> set (completedJobs s) \<Longrightarrow> sj_stage r = Stage1 \<Longrightarrow>
      (\<exists>k. setupKits s (sj_family r) = Some k \<and> currentMachine k = Some (machineId r))"
    using a sq by (simp add: mountedOK_def)
  have kits': "setupKits (fst sq') = (setupKits s)(family job \<mapsto>
        kit\<lparr>currentMachine := Some (m_id (?ms ! bi)),
            k_availableAt := endTime (last (completedJobs (fst sq')))\<rparr>)"
    unfolding d(3) by (rule assignStage1_setupKits)
  \<comment> \<open>the chosen machine is the one the kit is bound to, if it is bound at all\<close>
  have feasible: "stage1SetupTime job kit (?ms ! bi) \<noteq> None"
    using scanMachines_bestOK [OF bestOK_noBest, of s job kit "stageIndices Stage1 ?ms"] d(2)
    by (simp add: bestOK_def)
  have holder: "currentMachine kit = None \<or> currentMachine kit = Some (m_id (?ms ! bi))"
  proof (cases "currentSetupKit (?ms ! bi) = Some (family job)")
    case True
    from inv1 [OF bi True] show ?thesis using d(1) by simp
  next
    case False
    then show ?thesis using feasible by (auto simp: stage1SetupTime_def split: if_splits)
  qed
  have 1: "shapeOK sq'" using sh b by (rule shapeOK_stage1Step)
  have 2: "\<forall>i < length ?ms'. \<forall>f. currentSetupKit (?ms' ! i) = Some f \<longrightarrow>
          (\<exists>k. setupKits (fst sq') f = Some k \<and> currentMachine k = Some (m_id (?ms' ! i)))"
  proof (intro allI impI)
    fix i f assume i: "i < length ?ms'" and f: "currentSetupKit (?ms' ! i) = Some f"
    have i': "i < length ?ms" using i len by simp
    have id: "m_id (?ms' ! i) = m_id (?ms ! i)" using i' by (simp add: ms' mountKit_id)
    show "\<exists>k. setupKits (fst sq') f = Some k \<and> currentMachine k = Some (m_id (?ms' ! i))"
    proof (cases "i = bi")
      case True
      then have "f = family job" using f bi by (simp add: ms' mountKit_best)
      then show ?thesis using True id kits' by simp
    next
      case False
      have old: "currentSetupKit (?ms ! i) = Some f"
        using mountKit_other [OF i' False, of jid t kit "family job"] f by (simp add: ms')
      from inv1 [OF i' old] obtain k where
        k: "setupKits s f = Some k" "currentMachine k = Some (m_id (?ms ! i))" by blast
      have "f \<noteq> family job"
      proof
        assume "f = family job"
        then have "currentMachine kit = Some (m_id (?ms ! i))" using k d(1) by simp
        from mountKit_cleared [OF dist i' False bi this, of jid t "family job"]
        show False using f by (simp add: ms')
      qed
      then show ?thesis using k id kits' by simp
    qed
  qed
  obtain r0 where r0: "completedJobs (fst sq') = completedJobs s @ [r0]"
      "sj_stage r0 = Stage1" "sj_family r0 = family job" "machineId r0 = m_id (?ms ! bi)"
    unfolding d(3) using assignStage1_completed by blast
  have 3: "\<forall>r \<in> set (completedJobs (fst sq')). sj_stage r = Stage1 \<longrightarrow>
          (\<exists>k. setupKits (fst sq') (sj_family r) = Some k \<and> currentMachine k = Some (machineId r))"
  proof (intro ballI impI)
    fix r assume r: "r \<in> set (completedJobs (fst sq'))" and st: "sj_stage r = Stage1"
    show "\<exists>k. setupKits (fst sq') (sj_family r) = Some k \<and> currentMachine k = Some (machineId r)"
    proof (cases "r = r0")
      case True
      then show ?thesis using r0 kits' by simp
    next
      case False
      then have old: "r \<in> set (completedJobs s)" using r r0(1) by simp
      from inv2 [OF old st] obtain k where
        k: "setupKits s (sj_family r) = Some k" "currentMachine k = Some (machineId r)" by blast
      show ?thesis
      proof (cases "sj_family r = family job")
        case True
        then have "currentMachine kit = Some (machineId r)" using k d(1) by simp
        then have "machineId r = m_id (?ms ! bi)" using holder by simp
        then show ?thesis using True kits' by simp
      next
        case False
        then show ?thesis using k kits' by simp
      qed
    qed
  qed
  show ?thesis using 1 2 3 by (simp add: mountedOK_def)
qed

lemma kitsOf_nth:
  "kitsOf ms' = kitsOf ms \<Longrightarrow> i < length ms \<Longrightarrow>
     m_id (ms' ! i) = m_id (ms ! i) \<and> currentSetupKit (ms' ! i) = currentSetupKit (ms ! i)"
proof -
  assume a: "kitsOf ms' = kitsOf ms" and i: "i < length ms"
  have l: "length ms' = length ms" using a by (metis kitsOf_def length_map)
  have "kitsOf ms' ! i = kitsOf ms ! i" using a by simp
  then show ?thesis using i l by (simp add: kitsOf_def)
qed

lemma kitsOf_update:
  "m_id y = m_id (ms ! k) \<Longrightarrow> currentSetupKit y = currentSetupKit (ms ! k) \<Longrightarrow>
     kitsOf (ms[k := y]) = kitsOf ms"
proof (cases "k < length ms")
  case True
  assume "m_id y = m_id (ms ! k)" "currentSetupKit y = currentSetupKit (ms ! k)"
  then show ?thesis using True
    by (simp add: kitsOf_def map_update list_update_same_conv)
next
  case False
  then have "ms[k := y] = ms" by (simp add: list_update_beyond)
  then show ?thesis by simp
qed

lemma mountedOK_machines:
  assumes "mountedOK (s, q)" and "kitsOf ms' = kitsOf (machines s)"
      and "shapeOf ms' = shapeOf (machines s)"
  shows "mountedOK (s\<lparr>machines := ms'\<rparr>, q')"
proof -
  have l: "length ms' = length (machines s)" using assms(3) by (rule shapeOf_length)
  show ?thesis
    using assms(1,3) l kitsOf_nth [OF assms(2)]
    by (simp add: mountedOK_def shapeOK_def)
qed

lemma clearCurrentJob_kitsOf: "kitsOf (clearCurrentJob mid ms) = kitsOf ms"
  by (auto simp: clearCurrentJob_def kitsOf_update split: option.splits)

lemma mountedOK_stage2Step:
  assumes a: "mountedOK sq" and b: "stage2Step sq = Inr (Some sq')"
  shows "mountedOK sq'"
proof -
  obtain s q where sq: "sq = (s, q)" by (cases sq)
  from stage2Step_SomeD [OF b [unfolded sq]] obtain jid job bi stage1Job where
    d: "sq' = assignStage2 (s, q) jid job bi stage1Job"
    by blast
  let ?ms' = "machines (fst sq')"
  have sh: "shapeOf ?ms' = shapeOf (machines s)"
    unfolding d by (rule assignStage2_machines_shape)
  have ko: "kitsOf ?ms' = kitsOf (machines s)"
    unfolding d by (simp add: assignStage2_def Let_def kitsOf_update)
  have m: "mountedOK (s\<lparr>machines := ?ms'\<rparr>, snd sq')"
    by (rule mountedOK_machines [OF a [unfolded sq] ko sh])
  obtain r where r: "completedJobs (fst sq') = completedJobs s @ [r]" "sj_stage r = Stage2"
    unfolding d using assignStage2_completed by blast
  have k: "setupKits (fst sq') = setupKits s" unfolding d by (simp add: assignStage2_sel)
  show ?thesis using m r k by (simp add: mountedOK_def shapeOK_def)
qed

lemma mountedOK_clock: "mountedOK (s, e # q) \<Longrightarrow> mountedOK (s\<lparr>currentTime := t\<rparr>, q)"
  by (simp add: mountedOK_def shapeOK_def)

lemma mountedOK_clear:
  "mountedOK (s, q) \<Longrightarrow> mountedOK (s\<lparr>machines := clearCurrentJob mid (machines s)\<rparr>, q)"
  by (rule mountedOK_machines) (simp_all add: clearCurrentJob_shape clearCurrentJob_kitsOf)

lemma mountedOK_enq: "mountedOK (s, q) \<Longrightarrow> mountedOK (s\<lparr>stage2Queue := stage2Queue s @ [g]\<rparr>, q)"
  by (simp add: mountedOK_def shapeOK_def)

lemma initial_no_kit: "m \<in> set (machines (initializeState js sq0)) \<Longrightarrow> currentSetupKit m = None"
  by (auto simp: initial_machines newMachine_def)

lemma mountedOK_init: "mountedOK (initializeState js sq0, [])"
proof -
  have "\<And>i. i < length (machines (initializeState js sq0)) \<Longrightarrow>
          currentSetupKit (machines (initializeState js sq0) ! i) = None"
    using initial_no_kit nth_mem by blast
  moreover have "completedJobs (initializeState js sq0) = []"
    by (simp add: initializeState_def)
  ultimately show ?thesis using shapeOK_init [of js sq0] by (simp add: mountedOK_def)
qed

lemma mountedOK_simulate: "simulate n js sq0 = Inr (left, sq') \<Longrightarrow> mountedOK sq'"
  by (rule simulate_invariant [where P = mountedOK])
     (assumption | rule mountedOK_init mountedOK_clock mountedOK_clear mountedOK_enq
        | erule mountedOK_stage1Step mountedOK_stage2Step)+

lemma mountedOK_exclusive: "mountedOK (s, q) \<Longrightarrow> kitExclusive s"
  unfolding kitExclusive_def
proof (intro allI impI)
  fix i j
  assume a: "mountedOK (s, q)" and i: "i < length (machines s)" and j: "j < length (machines s)"
    and e: "currentSetupKit (machines s ! i) \<noteq> None \<and>
            currentSetupKit (machines s ! i) = currentSetupKit (machines s ! j)"
  from e obtain f where f1: "currentSetupKit (machines s ! i) = Some f" by blast
  with e have f2: "currentSetupKit (machines s ! j) = Some f" by simp
  note f = f1 f2
  have inv1: "\<And>i f. i < length (machines s) \<Longrightarrow> currentSetupKit (machines s ! i) = Some f \<Longrightarrow>
      (\<exists>k. setupKits s f = Some k \<and> currentMachine k = Some (m_id (machines s ! i)))"
    using a by (simp add: mountedOK_def)
  from inv1 [OF i f(1)] inv1 [OF j f(2)] have "m_id (machines s ! i) = m_id (machines s ! j)"
    by auto
  moreover have "distinct (map m_id (machines s))"
    using shapeOK_distinct_ids [of "(s, q)"] a by (simp add: mountedOK_def)
  ultimately show "i = j" using distinct_ids_index i j by blast
qed

lemma mountedOK_family: "mountedOK (s, q) \<Longrightarrow> familyOnOneMachine (completedJobs s)"
  unfolding familyOnOneMachine_def
proof (intro ballI impI)
  fix a b
  assume m: "mountedOK (s, q)" and a: "a \<in> set (completedJobs s)" and b: "b \<in> set (completedJobs s)"
    and e: "sj_stage a = Stage1 \<and> sj_stage b = Stage1 \<and> sj_family a = sj_family b"
  have inv2: "\<And>r. r \<in> set (completedJobs s) \<Longrightarrow> sj_stage r = Stage1 \<Longrightarrow>
      (\<exists>k. setupKits s (sj_family r) = Some k \<and> currentMachine k = Some (machineId r))"
    using m by (simp add: mountedOK_def)
  from inv2 [OF a] inv2 [OF b] e show "machineId a = machineId b" by auto
qed

text \<open>
  C1. After any number \<open>n\<close> of passes of the main loop (so at every point of a run
  where the engine waits for the next event, and in the final state), no two machines
  have the same family mounted, and all stage-1 ScheduledJobs of one family are on
  one machine; hence no two stage-1 ScheduledJobs of the same family on different
  machines overlap in time. The same holds of the Schedule that \<open>runSimulation\<close>
  returns. The invariant behind it is \<open>mountedOK\<close>: a machine that has a family
  mounted is the machine the family's kit is bound to, which an assignment keeps by
  clearing the kit binding of any other machine first (\<open>mountKit_cleared\<close>).
\<close>

theorem kit_exclusivity:
  "(\<exists>left s q. simulate n js sq0 = Inr (left, s, q) \<and>
      kitExclusive s \<and> familyOnOneMachine (completedJobs s) \<and>
      (\<forall>a \<in> set (completedJobs s). \<forall>b \<in> set (completedJobs s).
          sj_stage a = Stage1 \<and> sj_stage b = Stage1 \<and> sj_family a = sj_family b \<and>
          machineId a \<noteq> machineId b \<longrightarrow> \<not> overlap a b)) \<and>
   (\<exists>sch. runSimulation js sq0 = Inr sch \<and> familyOnOneMachine (jobs sch) \<and>
      (\<forall>a \<in> set (jobs sch). \<forall>b \<in> set (jobs sch).
          sj_stage a = Stage1 \<and> sj_stage b = Stage1 \<and> sj_family a = sj_family b \<and>
          machineId a \<noteq> machineId b \<longrightarrow> \<not> overlap a b))"
proof
  obtain left sq' where r: "simulate n js sq0 = Inr (left, sq')"
    using simulate_total by blast
  obtain s q where sq: "sq' = (s, q)" by (cases sq')
  have m: "mountedOK (s, q)" using mountedOK_simulate [OF r] sq by simp
  have e: "kitExclusive s" by (rule mountedOK_exclusive [OF m])
  have f: "familyOnOneMachine (completedJobs s)" by (rule mountedOK_family [OF m])
  have "\<forall>a \<in> set (completedJobs s). \<forall>b \<in> set (completedJobs s).
          sj_stage a = Stage1 \<and> sj_stage b = Stage1 \<and> sj_family a = sj_family b \<and>
          machineId a \<noteq> machineId b \<longrightarrow> \<not> overlap a b"
    using f unfolding familyOnOneMachine_def by blast
  then show "\<exists>left s q. simulate n js sq0 = Inr (left, s, q) \<and>
      kitExclusive s \<and> familyOnOneMachine (completedJobs s) \<and>
      (\<forall>a \<in> set (completedJobs s). \<forall>b \<in> set (completedJobs s).
          sj_stage a = Stage1 \<and> sj_stage b = Stage1 \<and> sj_family a = sj_family b \<and>
          machineId a \<noteq> machineId b \<longrightarrow> \<not> overlap a b)"
    using r sq e f by blast
next
  obtain left sq' where s: "simulate maxIterations js sq0 = Inr (left, sq')"
    and b: "runSimulation js sq0 = Inr (buildSchedule (fst sq'))"
    using runSimulation_Inr by blast
  have "mountedOK (fst sq', snd sq')" using mountedOK_simulate [OF s] by simp
  then have "familyOnOneMachine (completedJobs (fst sq'))" by (rule mountedOK_family)
  then have f: "familyOnOneMachine (jobs (buildSchedule (fst sq')))"
    by (simp add: jobs_buildSchedule)
  then have "\<forall>a \<in> set (jobs (buildSchedule (fst sq'))). \<forall>b \<in> set (jobs (buildSchedule (fst sq'))).
          sj_stage a = Stage1 \<and> sj_stage b = Stage1 \<and> sj_family a = sj_family b \<and>
          machineId a \<noteq> machineId b \<longrightarrow> \<not> overlap a b"
    unfolding familyOnOneMachine_def by blast
  then show "\<exists>sch. runSimulation js sq0 = Inr sch \<and> familyOnOneMachine (jobs sch) \<and>
      (\<forall>a \<in> set (jobs sch). \<forall>b \<in> set (jobs sch).
          sj_stage a = Stage1 \<and> sj_stage b = Stage1 \<and> sj_family a = sj_family b \<and>
          machineId a \<noteq> machineId b \<longrightarrow> \<not> overlap a b)"
    using b f by blast
qed

lemma kit_exclusivity_example:
  "(case simulate 3 [exJob 1 100 1 10 5, exJob 2 100 2 10 5, exJob 3 100 1 1 1]
            [Some 1, Some 2, Some 3] of
      Inl e \<Rightarrow> False
    | Inr (left, s, q) \<Rightarrow>
        map currentSetupKit (machines s)
          = [Some 1, Some 2, None, None, None, None, None, None, None] \<and>
        map (\<lambda>r. (sj_family r, machineId r)) (filter (\<lambda>r. sj_stage r = Stage1) (completedJobs s))
          = [(1, 1), (2, 2), (1, 1)])"
  by code_simp

theorem kit_exclusivity_witness:
  "\<exists>left s q. simulate 3 [exJob 1 100 1 10 5, exJob 2 100 2 10 5, exJob 3 100 1 1 1]
            [Some 1, Some 2, Some 3] = Inr (left, s, q) \<and>
      kitExclusive s \<and> familyOnOneMachine (completedJobs s) \<and>
      map currentSetupKit (machines s)
          = [Some 1, Some 2, None, None, None, None, None, None, None] \<and>
      map (\<lambda>r. (sj_family r, machineId r)) (filter (\<lambda>r. sj_stage r = Stage1) (completedJobs s))
          = [(1, 1), (2, 2), (1, 1)]"
proof -
  let ?js = "[exJob 1 100 1 10 5, exJob 2 100 2 10 5, exJob 3 100 1 1 1]"
  let ?sq0 = "[Some 1, Some 2, Some 3]"
  from kit_exclusivity [of 3 ?js ?sq0] obtain left s q where
    r: "simulate 3 ?js ?sq0 = Inr (left, s, q)" and k: "kitExclusive s"
    and f: "familyOnOneMachine (completedJobs s)" by blast
  show ?thesis using kit_exclusivity_example r k f by auto
qed

section \<open>Sequences with unknown ids\<close>

text \<open>
  C10 (as amended). \<open>runSimulation\<close> returns a Schedule for every job list and
  sequence. If the sequence is \<open>pre @ g # post\<close>, every id of \<open>pre\<close> has a job and
  \<open>g\<close> has none, then the run ends with \<open>g # post\<close> as the stage-1 queue and the
  stage-1 ScheduledJobs are those of \<open>pre\<close>, in order: none for \<open>g\<close>, and none for an
  id that occurs only after \<open>g\<close>. The max-iterations warning is not logged when
  \<open>pre\<close> has fewer than 5000 ids.
\<close>

theorem unknown_id_blocks_stage1:
  "(\<exists>sch. runSimulation js sq0 = Inr sch) \<and>
   ((\<forall>h \<in> set pre. knownJob js h) \<and> \<not> knownJob js g \<longrightarrow>
     (\<exists>left s q. simulate maxIterations js (pre @ g # post) = Inr (left, s, q) \<and>
        runSimulation js (pre @ g # post) = Inr (buildSchedule s) \<and>
        stage1Queue s = g # post \<and>
        stage1Ids (jobs (buildSchedule s)) = pre \<and>
        (2 * length pre < maxIterations \<longrightarrow> \<not> warnsMaxIterations js (pre @ g # post))))"
proof
  show "\<exists>sch. runSimulation js sq0 = Inr sch" using runSimulation_Inr by blast
next
  show "(\<forall>h \<in> set pre. knownJob js h) \<and> \<not> knownJob js g \<longrightarrow>
     (\<exists>left s q. simulate maxIterations js (pre @ g # post) = Inr (left, s, q) \<and>
        runSimulation js (pre @ g # post) = Inr (buildSchedule s) \<and>
        stage1Queue s = g # post \<and>
        stage1Ids (jobs (buildSchedule s)) = pre \<and>
        (2 * length pre < maxIterations \<longrightarrow> \<not> warnsMaxIterations js (pre @ g # post)))"
  proof
    assume h: "(\<forall>h \<in> set pre. knownJob js h) \<and> \<not> knownJob js g"
    let ?seq = "pre @ g # post"
    obtain left sq' where r: "simulate maxIterations js ?seq = Inr (left, sq')"
      and b: "runSimulation js ?seq = Inr (buildSchedule (fst sq'))"
      using runSimulation_Inr by blast
    obtain s q where sq: "sq' = (s, q)" by (cases sq')
    have tw: "takeWhile (knownJob js) ?seq = pre" using h by (simp add: takeWhile_append2)
    have dw: "dropWhile (knownJob js) ?seq = g # post" using h by (simp add: dropWhile_append2)
    from drained_split [OF drained_simulate [OF r]]
    have 1: "stage1Ids (completedJobs s) = pre" and 2: "stage1Queue s = g # post"
      using sq tw dw by simp_all
    have 3: "2 * length pre < maxIterations \<longrightarrow> \<not> warnsMaxIterations js ?seq"
      using no_warning [of js ?seq] tw by simp
    show "\<exists>left s q. simulate maxIterations js ?seq = Inr (left, s, q) \<and>
        runSimulation js ?seq = Inr (buildSchedule s) \<and>
        stage1Queue s = g # post \<and>
        stage1Ids (jobs (buildSchedule s)) = pre \<and>
        (2 * length pre < maxIterations \<longrightarrow> \<not> warnsMaxIterations js ?seq)"
      using r b sq 1 2 3 by (auto simp: jobs_buildSchedule)
  qed
qed

theorem unknown_id_blocks_stage1_witness:
  "\<exists>left s q. simulate maxIterations [exJob 1 100 1 10 5] ([Some 1] @ Some 99 # [Some 1])
                  = Inr (left, s, q) \<and>
        stage1Queue s = [Some 99, Some 1] \<and>
        stage1Ids (jobs (buildSchedule s)) = [Some 1] \<and>
        \<not> warnsMaxIterations [exJob 1 100 1 10 5] ([Some 1] @ Some 99 # [Some 1])"
proof -
  have "(\<forall>h \<in> set [Some 1]. knownJob [exJob 1 100 1 10 5] h) \<and>
        \<not> knownJob [exJob 1 100 1 10 5] (Some 99)"
    by (simp add: knownJob_def exJob_def)
  moreover have "2 * length [Some (1::int)] < maxIterations" by (simp add: maxIterations_def)
  ultimately show ?thesis
    using unknown_id_blocks_stage1
            [of "[exJob 1 100 1 10 5]" "[]" "[Some 1]" "Some 99" "[Some 1]"]
    by blast
qed

text \<open>
  C10 (as stated) fails for an id that occurs both before and after the unknown id:
  with the sequence 1, 99, 1 and the only job 1, the Schedule has a stage-1
  ScheduledJob for job 1, although 1 occurs after the unknown id 99.
\<close>

theorem unknown_id_later_id_counterexample:
  "runSimulation [exJob 1 100 1 10 5] [Some 1, Some 99, Some 1] =
     Inr \<lparr>jobs =
        [\<lparr>jobId = 1, machineId = 1, sj_stage = Stage1, startTime = 65,
            endTime = 75, setupTime = 65, setupType = SetupMajor,
            setupStartTime = Some 0, processingTime = 10, sj_family = 1,
            isLate = False, tardiness = 0\<rparr>,
         \<lparr>jobId = 1, machineId = 5, sj_stage = Stage2, startTime = 100,
            endTime = 105, setupTime = 25, setupType = SetupAoi,
            setupStartTime = Some 75, processingTime = 5, sj_family = 1,
            isLate = True, tardiness = 5\<rparr>],
        makespan = 105, totalTardiness = 5, averageTardiness = 5,
        setupCount = 2, minorSetupCount = 0, majorSetupCount = 1,
        aoiSetupCount = 1, utilization_stage1 = 5 / 28,
        utilization_stage2 = 2 / 35\<rparr>"
  by code_simp

section \<open>Stage-1 assignment\<close>

lemma assignStage1_record:
  assumes "setupRequired b"
  shows "completedJobs (fst (assignStage1 (s, q) jid job kit b bi)) =
           completedJobs s @
           [\<lparr>jobId = jid, machineId = m_id (machines s ! bi), sj_stage = Stage1,
              startTime = stage1JobStart s kit (machines s ! bi) (bestSetupTime b),
              endTime = stage1JobStart s kit (machines s ! bi) (bestSetupTime b) + t_smd job,
              setupTime = bestSetupTime b,
              setupType = (if bestSetupTime b = 65 then SetupMajor else SetupMinor),
              setupStartTime = Some (max (max (currentTime s) (m_availableAt (machines s ! bi)))
                                         (k_availableAt kit)),
              processingTime = t_smd job, sj_family = family job,
              isLate = False, tardiness = 0\<rparr>]"
  using assms
  by (simp add: assignStage1_def Let_def stage1JobStart_def SETUP_TIME_SMD_MAJOR_def)

lemma stage1SetupTime_cases:
  "stage1SetupTime job kit m =
     (if currentSetupKit m = Some (family job) then Some 20
      else if (\<exists>c. currentMachine kit = Some c \<and> c \<noteq> m_id m) then None
      else Some 65)"
  by (auto simp: stage1SetupTime_def SETUP_TIME_SMD_MINOR_def SETUP_TIME_SMD_MAJOR_def)

lemma stage1Step_all_skipped:
  assumes hd: "stage1Queue s = Some jid # rest" and job: "jobsMap s jid = Some job"
      and kit: "setupKits s (family job) = Some kit"
      and none: "\<forall>j \<in> set (stageIndices Stage1 (machines s)).
                   stage1SetupTime job kit (machines s ! j) = None"
  shows "stage1Step (s, q) = None"
proof -
  let ?is = "stageIndices Stage1 (machines s)"
  let ?b = "scanMachines s job kit ?is noBest"
  have "bestMachine ?b = None"
  proof (cases "bestMachine ?b")
    case None
    then show ?thesis .
  next
    case (Some bi)
    then have "bi \<in> set ?is" using scanMachines_mem [OF Some] by (simp add: noBest_def)
    moreover have "stage1SetupTime job kit (machines s ! bi) \<noteq> None"
      using scanMachines_bestOK [OF bestOK_noBest, of s job kit ?is] Some
      by (simp add: bestOK_def)
    ultimately have False using none by auto
    then show ?thesis ..
  qed
  then show ?thesis using hd job kit by (simp add: stage1Step_def getJob_def Let_def)
qed

lemma stage1Step_greedy:
  assumes hd: "stage1Queue s = Some jid # rest" and job: "jobsMap s jid = Some job"
      and kit: "setupKits s (family job) = Some kit"
      and some: "\<exists>j \<in> set (stageIndices Stage1 (machines s)).
                   stage1SetupTime job kit (machines s ! j) \<noteq> None"
  shows "\<exists>bi st s' q'.
           greedyStage1 s job kit bi st \<and>
           stage1Step (s, q) = Some (s', q') \<and>
           stage1Queue s' = rest \<and>
           completedJobs s' = completedJobs s @ [stage1Record s jid job kit bi st] \<and>
           currentTime s' = currentTime s \<and> jobsMap s' = jobsMap s"
proof -
  let ?is = "stageIndices Stage1 (machines s)"
  let ?b = "scanMachines s job kit ?is noBest"
  from some obtain j st0 where j: "j \<in> set ?is" "stage1SetupTime job kit (machines s ! j) = Some st0"
    by auto
  from scanMachines_min [OF j] obtain t where t: "bestStartTime ?b = Some t" by blast
  have ok: "bestOK s job kit ?b" by (rule scanMachines_bestOK [OF bestOK_noBest])
  then obtain bi where bi: "bestMachine ?b = Some bi"
    using t by (cases "bestMachine ?b") (simp_all add: bestOK_def)
  have req: "setupRequired ?b"
    and st: "stage1SetupTime job kit (machines s ! bi) = Some (bestSetupTime ?b)"
    and bt: "bestStartTime ?b = Some (stage1JobStart s kit (machines s ! bi) (bestSetupTime ?b))"
    using ok bi by (simp_all add: bestOK_def)
  have mem: "bi \<in> set ?is" using scanMachines_mem [OF bi] by (simp add: noBest_def)
  let ?sq' = "assignStage1 (s, q) jid job kit ?b bi"
  have step: "stage1Step (s, q) = Some ?sq'"
    using hd job kit bi by (simp add: stage1Step_def getJob_def Let_def)
  have minimal: "\<forall>j \<in> set ?is. \<forall>st'.
      stage1SetupTime job kit (machines s ! j) = Some st' \<longrightarrow>
      stage1JobStart s kit (machines s ! bi) (bestSetupTime ?b)
        \<le> stage1JobStart s kit (machines s ! j) st'"
  proof (intro ballI allI impI)
    fix j st' assume "j \<in> set ?is" "stage1SetupTime job kit (machines s ! j) = Some st'"
    from scanMachines_min [OF this, where b = noBest] show
      "stage1JobStart s kit (machines s ! bi) (bestSetupTime ?b)
        \<le> stage1JobStart s kit (machines s ! j) st'"
      using bt by simp
  qed
  have g: "greedyStage1 s job kit bi (bestSetupTime ?b)"
    using mem st minimal by (simp add: greedyStage1_def stage1JobStart_def)
  have q': "stage1Queue (fst ?sq') = rest" using hd by (simp add: assignStage1_sel)
  have c: "completedJobs (fst ?sq') = completedJobs s @ [stage1Record s jid job kit bi (bestSetupTime ?b)]"
    using assignStage1_record [OF req, of s q jid job kit bi]
    by (simp add: stage1Record_def stage1JobStart_def)
  have o: "currentTime (fst ?sq') = currentTime s" "jobsMap (fst ?sq') = jobsMap s"
    by (simp_all add: assignStage1_sel)
  obtain s' q' where sq': "?sq' = (s', q')" by (cases ?sq')
  have "greedyStage1 s job kit bi (bestSetupTime ?b) \<and>
           stage1Step (s, q) = Some (s', q') \<and>
           stage1Queue s' = rest \<and>
           completedJobs s' = completedJobs s @ [stage1Record s jid job kit bi (bestSetupTime ?b)] \<and>
           currentTime s' = currentTime s \<and> jobsMap s' = jobsMap s"
    using g step q' c o unfolding sq' by simp
  then show ?thesis by blast
qed

text \<open>ScheduledJobs are only ever appended.\<close>

lemma prefix_stage1Step:
  "length xs = m \<Longrightarrow> take m (completedJobs (fst sq)) = xs \<Longrightarrow> stage1Step sq = Some sq'
     \<Longrightarrow> take m (completedJobs (fst sq')) = xs"
proof -
  assume l: "length xs = m" and a: "take m (completedJobs (fst sq)) = xs"
    and b: "stage1Step sq = Some sq'"
  obtain s q where sq: "sq = (s, q)" by (cases sq)
  from stage1Step_SomeD [OF b [unfolded sq]] obtain jid job kit bi bb where
    "sq' = assignStage1 (s, q) jid job kit bb bi" by blast
  then obtain r where "completedJobs (fst sq') = completedJobs s @ [r]"
    using assignStage1_completed by blast
  moreover have "m \<le> length (completedJobs s)" using a l sq by auto
  ultimately show ?thesis using a sq by simp
qed

lemma prefix_stage2Step:
  "length xs = m \<Longrightarrow> take m (completedJobs (fst sq)) = xs \<Longrightarrow> stage2Step sq = Inr (Some sq')
     \<Longrightarrow> take m (completedJobs (fst sq')) = xs"
proof -
  assume l: "length xs = m" and a: "take m (completedJobs (fst sq)) = xs"
    and b: "stage2Step sq = Inr (Some sq')"
  obtain s q where sq: "sq = (s, q)" by (cases sq)
  from stage2Step_SomeD [OF b [unfolded sq]] obtain jid job bi st1 where
    "sq' = assignStage2 (s, q) jid job bi st1" by blast
  then obtain r where "completedJobs (fst sq') = completedJobs s @ [r]"
    using assignStage2_completed by blast
  moreover have "m \<le> length (completedJobs s)" using a l sq by auto
  ultimately show ?thesis using a sq by simp
qed

lemma prefix_tryAssignStage1Jobs:
  assumes "take m (completedJobs (fst sq)) = xs" and "length xs = m"
  shows "take m (completedJobs (fst (tryAssignStage1Jobs sq))) = xs"
proof (rule tryAssignStage1Jobs_preserves [where P = "\<lambda>x. take m (completedJobs (fst x)) = xs"])
  show "take m (completedJobs (fst sq)) = xs" by (rule assms(1))
next
  fix a b assume "take m (completedJobs (fst a)) = xs" "stage1Step a = Some b"
  then show "take m (completedJobs (fst b)) = xs" by (rule prefix_stage1Step [OF assms(2)])
qed

lemma prefix_tryAssignStage2Jobs:
  assumes "take m (completedJobs (fst sq)) = xs" and "length xs = m"
      and "tryAssignStage2Jobs sq = Inr sq'"
  shows "take m (completedJobs (fst sq')) = xs"
proof (rule tryAssignStage2Jobs_preserves
        [where P = "\<lambda>x. take m (completedJobs (fst x)) = xs", OF _ assms(1) assms(3)])
  fix a b assume "take m (completedJobs (fst a)) = xs" "stage2Step a = Inr (Some b)"
  then show "take m (completedJobs (fst b)) = xs" by (rule prefix_stage2Step [OF assms(2)])
qed

lemma prefix_processEvent:
  assumes "take m (completedJobs s) = xs" and "length xs = m"
      and "processEvent e (s, q) = Inr sq'"
  shows "take m (completedJobs (fst sq')) = xs"
  using processEvent_cases [OF assms(3)]
proof
  assume c: "e_type e = STAGE1_COMPLETE \<and>
          tryAssignStage2Jobs
            (s\<lparr>currentTime := e_time e,
               machines := clearCurrentJob (e_machineId e) (machines s),
               stage2Queue := stage2Queue s @ [e_jobId e]\<rparr>, q) = Inr sq'"
  show ?thesis
    by (rule prefix_tryAssignStage2Jobs [OF _ assms(2) conjunct2 [OF c]]) (simp add: assms(1))
next
  assume "e_type e \<noteq> STAGE1_COMPLETE \<and> stage2Queue (fst sq') = stage2Queue s \<and>
          completedJobs (fst sq') = completedJobs s \<and> snd sq' = q"
  then show ?thesis using assms(1) by simp
qed

lemma prefix_mainLoop:
  assumes "length xs = m" and "take m (completedJobs (fst sq)) = xs"
      and "mainLoop n sq = Inr (left, sq')"
  shows "take m (completedJobs (fst sq')) = xs"
proof (rule mainLoop_preserves
        [where P = "\<lambda>x. take m (completedJobs (fst x)) = xs", OF _ _ assms(2) assms(3)])
  fix e s q sq1
  assume "take m (completedJobs (fst (s, e # q))) = xs" "processEvent e (s, q) = Inr sq1"
  then show "take m (completedJobs (fst sq1)) = xs"
    using prefix_processEvent [OF _ assms(1)] by simp
next
  fix a b assume "take m (completedJobs (fst a)) = xs" "stage1Step a = Some b"
  then show "take m (completedJobs (fst b)) = xs" by (rule prefix_stage1Step [OF assms(1)])
qed

lemma stage1After_tryAssign:
  "stage1After k sq = Some sk \<Longrightarrow> tryAssignStage1Jobs sq = tryAssignStage1Jobs sk"
proof (induction k arbitrary: sk)
  case 0
  then show ?case by simp
next
  case (Suc k)
  then obtain sm where m: "stage1After k sq = Some sm" and st: "stage1Step sm = Some sk"
    by (auto split: option.splits)
  have "tryAssignStage1Jobs sm = tryAssignStage1Jobs sk"
    using st by (simp add: tryAssignStage1Jobs.simps [of sm])
  then show ?case using Suc.IH [OF m] by simp
qed

lemma stage1Ids_all_stage1:
  "\<forall>r \<in> set cj. sj_stage r = Stage1 \<Longrightarrow> length (stage1Ids cj) = length cj"
  by (induction cj) (simp_all add: stage1Ids_def)

lemma known_head:
  assumes inv: "queueInv js sq0 (s, q)" and hd: "stage1Queue s = g # rest" and k: "knownJob js g"
  shows "\<exists>jid job. g = Some jid \<and> jobsMap s jid = Some job"
proof -
  have "getJob (jobsMap (initializeState js sq0)) g \<noteq> None"
    using k getJob_initial [of js sq0 g] by simp
  then have "getJob (jobsMap s) g \<noteq> None" using inv by (simp add: queueInv_def)
  then show ?thesis by (cases g) (auto simp: getJob_def)
qed

lemma stage1After_run:
  "k \<le> length (takeWhile (knownJob js) sq0) \<Longrightarrow>
   \<exists>sk. stage1After k (initializeState js sq0, []) = Some sk \<and> queueInv js sq0 sk \<and>
        length (completedJobs (fst sk)) = k \<and>
        (\<forall>r \<in> set (completedJobs (fst sk)). sj_stage r = Stage1) \<and>
        currentTime (fst sk) = 0 \<and> stage1Queue (fst sk) = drop k sq0"
proof (induction k)
  case 0
  have "queueInv js sq0 (initializeState js sq0, [])" by (rule queueInv_init)
  then show ?case by (simp add: initializeState_def)
next
  case (Suc k)
  then obtain sk where a: "stage1After k (initializeState js sq0, []) = Some sk"
    and inv: "queueInv js sq0 sk" and len: "length (completedJobs (fst sk)) = k"
    and all1: "\<forall>r \<in> set (completedJobs (fst sk)). sj_stage r = Stage1"
    and t0: "currentTime (fst sk) = 0" and qu: "stage1Queue (fst sk) = drop k sq0"
    by auto
  obtain s q where sk: "sk = (s, q)" by (cases sk)
  let ?pre = "takeWhile (knownJob js) sq0"
  have k: "k < length ?pre" using Suc.prems by simp
  have kl: "k < length sq0" using k length_takeWhile_le [of "knownJob js" sq0] by simp
  have hd: "stage1Queue s = sq0 ! k # drop (Suc k) sq0"
    using qu sk kl by (simp add: Cons_nth_drop_Suc)
  have "?pre ! k = sq0 ! k" using k by (rule takeWhile_nth)
  moreover have "?pre ! k \<in> set ?pre" using k by simp
  ultimately have kn: "knownJob js (sq0 ! k)" by (metis set_takeWhileD)
  from known_head [OF inv [unfolded sk] hd kn] obtain jid job where
    g: "sq0 ! k = Some jid" and job: "jobsMap s jid = Some job" by blast
  have ok: "kitsOK (s, q)" using inv sk by (simp add: queueInv_def)
  have "stage1Step (s, q) \<noteq> None"
    by (rule stage1Step_progress [OF ok hd [unfolded g] job])
  then obtain sk' where st: "stage1Step sk = Some sk'" using sk by auto
  have inv': "queueInv js sq0 sk'" by (rule queueInv_stage1Step [OF inv st])
  from stage1Step_SomeD [OF st [unfolded sk]] obtain jid' job' kit bi where
    d: "sk' = assignStage1 (s, q) jid' job' kit
              (scanMachines s job' kit (stageIndices Stage1 (machines s)) noBest) bi"
    by blast
  obtain r where r: "completedJobs (fst sk') = completedJobs s @ [r]" "sj_stage r = Stage1"
    unfolding d using assignStage1_completed by blast
  have t': "currentTime (fst sk') = 0" using t0 sk unfolding d by (simp add: assignStage1_sel)
  have q': "stage1Queue (fst sk') = drop (Suc k) sq0"
    using hd unfolding d by (simp add: assignStage1_sel)
  have "stage1After (Suc k) (initializeState js sq0, []) = Some sk'" using a st by simp
  then show ?case using inv' r len all1 sk t' q' by auto
qed

lemma stage1_engine:
  assumes k: "k < length (takeWhile (knownJob js) sq0)"
  shows "\<exists>sk qk jid job kit bi st sch.
           stage1After k (initializeState js sq0, []) = Some (sk, qk) \<and>
           stage1Queue sk = drop k sq0 \<and> sq0 ! k = Some jid \<and>
           jobsMap sk jid = Some job \<and> setupKits sk (family job) = Some kit \<and>
           currentTime sk = 0 \<and> greedyStage1 sk job kit bi st \<and>
           runSimulation js sq0 = Inr sch \<and> k < length (jobs sch) \<and>
           jobs sch ! k = stage1Record sk jid job kit bi st"
proof -
  let ?init = "(initializeState js sq0, [])"
  from stage1After_run [of k js sq0] k obtain sk0 where
    a: "stage1After k ?init = Some sk0" and inv: "queueInv js sq0 sk0"
    and len: "length (completedJobs (fst sk0)) = k"
    and t0: "currentTime (fst sk0) = 0" and qu: "stage1Queue (fst sk0) = drop k sq0"
    by auto
  obtain s q where sk: "sk0 = (s, q)" by (cases sk0)
  let ?pre = "takeWhile (knownJob js) sq0"
  have kl: "k < length sq0" using k length_takeWhile_le [of "knownJob js" sq0] by simp
  have hd0: "stage1Queue s = sq0 ! k # drop (Suc k) sq0"
    using qu sk kl by (simp add: Cons_nth_drop_Suc)
  have "?pre ! k = sq0 ! k" using k by (rule takeWhile_nth)
  moreover have "?pre ! k \<in> set ?pre" using k by simp
  ultimately have kn: "knownJob js (sq0 ! k)" by (metis set_takeWhileD)
  from known_head [OF inv [unfolded sk] hd0 kn] obtain jid job where
    g: "sq0 ! k = Some jid" and job: "jobsMap s jid = Some job" by blast
  have hd: "stage1Queue s = Some jid # drop (Suc k) sq0" using hd0 g by simp
  have ok: "kitsOK (s, q)" using inv sk by (simp add: queueInv_def)
  then have "setupKits s (family job) \<noteq> None" using job unfolding kitsOK_def fst_conv by blast
  then obtain kit where kit: "setupKits s (family job) = Some kit" by blast
  have prog: "stage1Step (s, q) \<noteq> None" by (rule stage1Step_progress [OF ok hd job])
  have some: "\<exists>j \<in> set (stageIndices Stage1 (machines s)).
                stage1SetupTime job kit (machines s ! j) \<noteq> None"
  proof (rule ccontr)
    assume "\<not> ?thesis"
    then have "\<forall>j \<in> set (stageIndices Stage1 (machines s)).
                 stage1SetupTime job kit (machines s ! j) = None" by blast
    from stage1Step_all_skipped [OF hd job kit this] prog show False by simp
  qed
  from stage1Step_greedy [OF hd job kit some, of q] obtain bi st s' q' where
    gr: "greedyStage1 s job kit bi st" and step: "stage1Step (s, q) = Some (s', q')"
    and c: "completedJobs s' = completedJobs s @ [stage1Record s jid job kit bi st]"
    by blast
  have a': "stage1After (Suc k) ?init = Some (s', q')" using a sk step by simp
  have eq: "tryAssignStage1Jobs ?init = tryAssignStage1Jobs (s', q')"
    by (rule stage1After_tryAssign [OF a'])
  let ?xs = "completedJobs s @ [stage1Record s jid job kit bi st]"
  have lx: "length ?xs = Suc k" using len sk by simp
  have p0: "take (Suc k) (completedJobs (fst (s', q'))) = ?xs" using c lx by simp
  have p1: "take (Suc k) (completedJobs (fst (tryAssignStage1Jobs ?init))) = ?xs"
    unfolding eq by (rule prefix_tryAssignStage1Jobs [OF p0 lx])
  obtain left sqf where r: "simulate maxIterations js sq0 = Inr (left, sqf)"
    and b: "runSimulation js sq0 = Inr (buildSchedule (fst sqf))"
    using runSimulation_Inr by blast
  have ml: "mainLoop maxIterations (tryAssignStage1Jobs ?init) = Inr (left, sqf)"
    using r by (simp add: simulate_def)
  have p2: "take (Suc k) (completedJobs (fst sqf)) = ?xs"
    by (rule prefix_mainLoop [OF lx p1 ml])
  have l2: "k < length (completedJobs (fst sqf))"
  proof (rule ccontr)
    assume "\<not> k < length (completedJobs (fst sqf))"
    then have "length (take (Suc k) (completedJobs (fst sqf))) \<le> k" by simp
    then show False using p2 lx by simp
  qed
  have "completedJobs (fst sqf) ! k = take (Suc k) (completedJobs (fst sqf)) ! k" by simp
  also have "\<dots> = ?xs ! k" using p2 by simp
  also have "\<dots> = stage1Record s jid job kit bi st" using len sk by (simp add: nth_append)
  finally have n: "jobs (buildSchedule (fst sqf)) ! k = stage1Record s jid job kit bi st"
    by (simp add: jobs_buildSchedule)
  have l3: "k < length (jobs (buildSchedule (fst sqf)))" using l2 by (simp add: jobs_buildSchedule)
  have "stage1After k ?init = Some (s, q) \<and>
           stage1Queue s = drop k sq0 \<and> sq0 ! k = Some jid \<and>
           jobsMap s jid = Some job \<and> setupKits s (family job) = Some kit \<and>
           currentTime s = 0 \<and> greedyStage1 s job kit bi st \<and>
           runSimulation js sq0 = Inr (buildSchedule (fst sqf)) \<and>
           k < length (jobs (buildSchedule (fst sqf))) \<and>
           jobs (buildSchedule (fst sqf)) ! k = stage1Record s jid job kit bi st"
    using a sk qu g job kit t0 gr b l3 n by simp
  then show ?thesis by blast
qed

lemma stage1_function:
  assumes hd: "stage1Queue s = Some jid # rest" and job: "jobsMap s jid = Some job"
      and kit: "setupKits s (family job) = Some kit"
      and some: "\<exists>j \<in> set (stageIndices Stage1 (machines s)).
                   stage1SetupTime job kit (machines s ! j) \<noteq> None"
  shows "\<exists>bi st s' q'.
           greedyStage1 s job kit bi st \<and>
           stage1Step (s, q) = Some (s', q') \<and>
           tryAssignStage1Jobs (s, q) = tryAssignStage1Jobs (s', q') \<and>
           stage1Queue s' = rest \<and>
           completedJobs s' = completedJobs s @ [stage1Record s jid job kit bi st] \<and>
           take (Suc (length (completedJobs s)))
                (completedJobs (fst (tryAssignStage1Jobs (s, q))))
             = completedJobs s @ [stage1Record s jid job kit bi st]"
proof -
  from stage1Step_greedy [OF hd job kit some, of q] obtain bi st s' q' where
    gr: "greedyStage1 s job kit bi st" and step: "stage1Step (s, q) = Some (s', q')"
    and qu: "stage1Queue s' = rest"
    and c: "completedJobs s' = completedJobs s @ [stage1Record s jid job kit bi st]"
    by blast
  have eq: "tryAssignStage1Jobs (s, q) = tryAssignStage1Jobs (s', q')"
    using step by (simp add: tryAssignStage1Jobs.simps [of "(s, q)"])
  let ?xs = "completedJobs s @ [stage1Record s jid job kit bi st]"
  have lx: "length ?xs = Suc (length (completedJobs s))" by simp
  have p0: "take (Suc (length (completedJobs s))) (completedJobs (fst (s', q'))) = ?xs"
    using c by simp
  have "take (Suc (length (completedJobs s)))
             (completedJobs (fst (tryAssignStage1Jobs (s, q)))) = ?xs"
    unfolding eq by (rule prefix_tryAssignStage1Jobs [OF p0 lx])
  then show ?thesis using gr step eq qu c by blast
qed

lemma stage1_head_feasible:
  assumes ok: "kitsOK (s, q)" and hd: "stage1Queue s = Some jid # rest"
      and job: "jobsMap s jid = Some job" and kit: "setupKits s (family job) = Some kit"
  shows "\<exists>j \<in> set (stageIndices Stage1 (machines s)).
           stage1SetupTime job kit (machines s ! j) \<noteq> None"
proof (rule ccontr)
  assume "\<not> ?thesis"
  then have "\<forall>j \<in> set (stageIndices Stage1 (machines s)).
               stage1SetupTime job kit (machines s ! j) = None" by blast
  from stage1Step_all_skipped [OF hd job kit this] stage1Step_progress [OF ok hd job]
  show False by simp
qed

text \<open>
  C2. A machine that has the job's family mounted is charged 20; otherwise a machine
  is skipped when the kit is bound to a machine with another id; otherwise it is charged
  65. Let the job at the head of the stage-1 queue have a job record and a kit. If some
  stage-1 machine is not skipped, \<open>tryAssignStage1Jobs\<close> assigns the job: its first
  pass takes the job from the queue and records the ScheduledJob \<open>stage1Record\<close> on a
  stage-1 machine whose job start (the largest of clock, machine \<open>availableAt\<close> and
  kit \<open>availableAt\<close>, plus the setup) is the smallest among the machines not skipped
  (\<open>greedyStage1\<close>); the function goes on from that state, and the record is at its
  place in the state that the function returns. If every stage-1 machine is skipped,
  the function returns the state as it was, the job still at the head; the main loop
  calls it again after the next event. In a run of \<open>runSimulation\<close> the ids of the
  sequence before the first unknown id are assigned in the first call, at clock 0: the
  \<open>k\<close>-th of them is at the head after \<open>k\<close> passes (\<open>stage1After\<close>), has a job
  record and a kit, and the \<open>k\<close>-th ScheduledJob of the returned Schedule is its
  record, on a machine that is the greedy choice in that state. (In a run a kit that is
  bound to a machine is mounted there, so that the head job always has a machine that is
  not skipped, \<open>stage1_head_feasible\<close>; the case that every machine is skipped is met
  only in a state that no run reaches.)
\<close>

theorem stage1_greedy_assignment:
  "(\<forall>m. stage1SetupTime job kit m =
       (if currentSetupKit m = Some (family job) then Some 20
        else if (\<exists>c. currentMachine kit = Some c \<and> c \<noteq> m_id m) then None
        else Some 65)) \<and>
   (stage1Queue s = Some jid # rest \<and> jobsMap s jid = Some job \<and>
    setupKits s (family job) = Some kit \<longrightarrow>
      ((\<exists>j \<in> set (stageIndices Stage1 (machines s)).
           stage1SetupTime job kit (machines s ! j) \<noteq> None) \<longrightarrow>
       (\<exists>bi st s' q'.
           greedyStage1 s job kit bi st \<and>
           stage1Step (s, q) = Some (s', q') \<and>
           tryAssignStage1Jobs (s, q) = tryAssignStage1Jobs (s', q') \<and>
           stage1Queue s' = rest \<and>
           completedJobs s' = completedJobs s @ [stage1Record s jid job kit bi st] \<and>
           take (Suc (length (completedJobs s)))
                (completedJobs (fst (tryAssignStage1Jobs (s, q))))
             = completedJobs s @ [stage1Record s jid job kit bi st])) \<and>
      ((\<forall>j \<in> set (stageIndices Stage1 (machines s)).
           stage1SetupTime job kit (machines s ! j) = None) \<longrightarrow>
       stage1Step (s, q) = None \<and> tryAssignStage1Jobs (s, q) = (s, q))) \<and>
   (k < length (takeWhile (knownJob js) sq0) \<longrightarrow>
      (\<exists>sk qk jid job kit bi st sch.
          stage1After k (initializeState js sq0, []) = Some (sk, qk) \<and>
          stage1Queue sk = drop k sq0 \<and> sq0 ! k = Some jid \<and>
          jobsMap sk jid = Some job \<and> setupKits sk (family job) = Some kit \<and>
          currentTime sk = 0 \<and>
          greedyStage1 sk job kit bi st \<and>
          runSimulation js sq0 = Inr sch \<and> k < length (jobs sch) \<and>
          jobs sch ! k = stage1Record sk jid job kit bi st))"
proof (intro conjI impI allI)
  fix m
  show "stage1SetupTime job kit m =
       (if currentSetupKit m = Some (family job) then Some 20
        else if (\<exists>c. currentMachine kit = Some c \<and> c \<noteq> m_id m) then None
        else Some 65)" by (rule stage1SetupTime_cases)
next
  assume h: "stage1Queue s = Some jid # rest \<and> jobsMap s jid = Some job \<and>
    setupKits s (family job) = Some kit"
    and some: "\<exists>j \<in> set (stageIndices Stage1 (machines s)).
           stage1SetupTime job kit (machines s ! j) \<noteq> None"
  from h have hd: "stage1Queue s = Some jid # rest" and job: "jobsMap s jid = Some job"
    and kit: "setupKits s (family job) = Some kit" by simp_all
  show "\<exists>bi st s' q'.
           greedyStage1 s job kit bi st \<and>
           stage1Step (s, q) = Some (s', q') \<and>
           tryAssignStage1Jobs (s, q) = tryAssignStage1Jobs (s', q') \<and>
           stage1Queue s' = rest \<and>
           completedJobs s' = completedJobs s @ [stage1Record s jid job kit bi st] \<and>
           take (Suc (length (completedJobs s)))
                (completedJobs (fst (tryAssignStage1Jobs (s, q))))
             = completedJobs s @ [stage1Record s jid job kit bi st]"
    by (rule stage1_function [OF hd job kit some])
next
  assume h: "stage1Queue s = Some jid # rest \<and> jobsMap s jid = Some job \<and>
    setupKits s (family job) = Some kit"
    and none: "\<forall>j \<in> set (stageIndices Stage1 (machines s)).
           stage1SetupTime job kit (machines s ! j) = None"
  from h have hd: "stage1Queue s = Some jid # rest" and job: "jobsMap s jid = Some job"
    and kit: "setupKits s (family job) = Some kit" by simp_all
  show n: "stage1Step (s, q) = None" by (rule stage1Step_all_skipped [OF hd job kit none])
  show "tryAssignStage1Jobs (s, q) = (s, q)"
    using n by (simp add: tryAssignStage1Jobs.simps [of "(s, q)"])
next
  assume "k < length (takeWhile (knownJob js) sq0)"
  then show "\<exists>sk qk jid job kit bi st sch.
          stage1After k (initializeState js sq0, []) = Some (sk, qk) \<and>
          stage1Queue sk = drop k sq0 \<and> sq0 ! k = Some jid \<and>
          jobsMap sk jid = Some job \<and> setupKits sk (family job) = Some kit \<and>
          currentTime sk = 0 \<and>
          greedyStage1 sk job kit bi st \<and>
          runSimulation js sq0 = Inr sch \<and> k < length (jobs sch) \<and>
          jobs sch ! k = stage1Record sk jid job kit bi st"
    by (rule stage1_engine)
qed

lemma initial_stage1_indices: "stageIndices Stage1 (machines (initializeState js sq0)) = [0, 1, 2, 3]"
  using shapeOK_stage1_indices [OF shapeOK_init [of js sq0]] by simp

lemma initial_machine_free:
  "j \<in> set [0, 1, 2, 3] \<Longrightarrow>
     currentSetupKit (machines (initializeState js sq0) ! j) = None \<and>
     m_availableAt (machines (initializeState js sq0) ! j) = 0 \<and>
     m_id (machines (initializeState js sq0) ! j) = int j + 1"
  by (auto simp: initial_machines newMachine_def)

lemma stage1_example:
  "(case runSimulation exJobs [Some 1, Some 2, Some 3] of
      Inl e \<Rightarrow> False
    | Inr sch \<Rightarrow>
        map (\<lambda>r. (jobId r, machineId r, setupTime r, setupType r, setupStartTime r,
                  startTime r, endTime r)) (take 3 (jobs sch))
          = [(1, 1, 65, SetupMajor, Some 0, 65, 75),
             (2, 2, 65, SetupMajor, Some 0, 65, 95),
             (3, 1, 20, SetupMinor, Some 75, 95, 115)])"
  by code_simp

theorem stage1_greedy_assignment_witness:
  "(\<exists>bi st s' q'.
      greedyStage1 (initializeState [exJob 1 100 1 10 5] [Some 1]) (exJob 1 100 1 10 5)
        (newKit 1) bi st \<and>
      stage1Step (initializeState [exJob 1 100 1 10 5] [Some 1], []) = Some (s', q') \<and>
      tryAssignStage1Jobs (initializeState [exJob 1 100 1 10 5] [Some 1], [])
        = tryAssignStage1Jobs (s', q') \<and>
      stage1Queue s' = [] \<and>
      map (\<lambda>r. (jobId r, setupTime r, setupType r, startTime r, endTime r))
          (take 1 (completedJobs
             (fst (tryAssignStage1Jobs (initializeState [exJob 1 100 1 10 5] [Some 1], [])))))
        = [(1, 65, SetupMajor, 65, 75)]) \<and>
   tryAssignStage1Jobs
     ((initializeState [exJob 1 100 1 10 5] [Some 1])
        \<lparr>setupKits := [1 \<mapsto> (newKit 1)\<lparr>currentMachine := Some 77\<rparr>]\<rparr>, [])
   = ((initializeState [exJob 1 100 1 10 5] [Some 1])
        \<lparr>setupKits := [1 \<mapsto> (newKit 1)\<lparr>currentMachine := Some 77\<rparr>]\<rparr>, []) \<and>
   (\<exists>sk qk job kit bi st sch.
      stage1After 2 (initializeState exJobs [Some 1, Some 2, Some 3], []) = Some (sk, qk) \<and>
      stage1Queue sk = [Some 3] \<and> jobsMap sk 3 = Some job \<and>
      setupKits sk (family job) = Some kit \<and>
      greedyStage1 sk job kit bi st \<and>
      runSimulation exJobs [Some 1, Some 2, Some 3] = Inr sch \<and>
      jobs sch ! 2 = stage1Record sk 3 job kit bi st \<and>
      (jobId (jobs sch ! 2), machineId (jobs sch ! 2), setupTime (jobs sch ! 2),
       setupType (jobs sch ! 2), setupStartTime (jobs sch ! 2), startTime (jobs sch ! 2),
       endTime (jobs sch ! 2)) = (3, 1, 20, SetupMinor, Some 75, 95, 115))"
proof (intro conjI)
  let ?job = "exJob 1 100 1 10 5"
  let ?s = "initializeState [?job] [Some 1]"
  let ?kit = "newKit 1"
  have h: "stage1Queue ?s = Some 1 # [] \<and> jobsMap ?s 1 = Some ?job \<and>
           setupKits ?s (family ?job) = Some ?kit"
    by (simp add: initializeState_def exJob_def)
  have free: "\<And>j. j \<in> set [0, 1, 2, 3] \<Longrightarrow> stage1SetupTime ?job ?kit (machines ?s ! j) = Some 65"
    using initial_machine_free [of _ "[?job]" "[Some 1]"]
    by (simp add: stage1SetupTime_def newKit_def SETUP_TIME_SMD_MAJOR_def)
  have some: "\<exists>j \<in> set (stageIndices Stage1 (machines ?s)).
          stage1SetupTime ?job ?kit (machines ?s ! j) \<noteq> None"
    using free [of 0] by (simp add: initial_stage1_indices)
  from stage1_greedy_assignment [of ?job ?kit ?s 1 "[]" "[]" 0 "[]" "[]"] h some
  obtain bi st s' q' where
    gr: "greedyStage1 ?s ?job ?kit bi st"
    and step: "stage1Step (?s, []) = Some (s', q')"
    and eq: "tryAssignStage1Jobs (?s, []) = tryAssignStage1Jobs (s', q')"
    and qu: "stage1Queue s' = []"
    and t: "take (Suc (length (completedJobs ?s)))
                (completedJobs (fst (tryAssignStage1Jobs (?s, []))))
             = completedJobs ?s @ [stage1Record ?s 1 ?job ?kit bi st]"
    by blast
  have bi: "bi \<in> set [0, 1, 2, 3]" using gr by (simp add: greedyStage1_def initial_stage1_indices)
  have st: "st = 65" using free [OF bi] gr by (simp add: greedyStage1_def)
  have cj: "completedJobs ?s = []" "currentTime ?s = 0" by (simp_all add: initializeState_def)
  have av: "m_availableAt (machines ?s ! bi) = 0" using initial_machine_free [OF bi] by simp
  have v1: "map (\<lambda>r. (jobId r, setupTime r, setupType r, startTime r, endTime r))
          (take 1 (completedJobs (fst (tryAssignStage1Jobs (?s, [])))))
        = [(1, 65, SetupMajor, 65, 75)]"
    using t cj st av by (simp add: stage1Record_def newKit_def exJob_def)
  show "\<exists>bi st s' q'.
      greedyStage1 ?s ?job ?kit bi st \<and>
      stage1Step (?s, []) = Some (s', q') \<and>
      tryAssignStage1Jobs (?s, []) = tryAssignStage1Jobs (s', q') \<and>
      stage1Queue s' = [] \<and>
      map (\<lambda>r. (jobId r, setupTime r, setupType r, startTime r, endTime r))
          (take 1 (completedJobs (fst (tryAssignStage1Jobs (?s, [])))))
        = [(1, 65, SetupMajor, 65, 75)]"
    by (intro exI [of _ bi] exI [of _ st] exI [of _ s'] exI [of _ q'] conjI gr step eq qu v1)
next
  let ?job = "exJob 1 100 1 10 5"
  let ?kit = "(newKit 1)\<lparr>currentMachine := Some 77\<rparr>"
  let ?s = "(initializeState [?job] [Some 1])\<lparr>setupKits := [1 \<mapsto> ?kit]\<rparr>"
  have h: "stage1Queue ?s = Some 1 # [] \<and> jobsMap ?s 1 = Some ?job \<and>
           setupKits ?s (family ?job) = Some ?kit"
    by (simp add: initializeState_def exJob_def)
  have ms: "machines ?s = machines (initializeState [?job] [Some 1])" by simp
  have "\<forall>j \<in> set (stageIndices Stage1 (machines ?s)).
          stage1SetupTime ?job ?kit (machines ?s ! j) = None"
    unfolding ms initial_stage1_indices
    using initial_machine_free [of _ "[?job]" "[Some 1]"]
    by (simp add: stage1SetupTime_def)
  with stage1_greedy_assignment [of ?job ?kit ?s 1 "[]" "[]" 0 "[]" "[]"] h
  show "tryAssignStage1Jobs (?s, []) = (?s, [])" by blast
next
  let ?sq = "[Some 1, Some 2, Some (3::int)]"
  have k: "2 < length (takeWhile (knownJob exJobs) ?sq)"
    by (simp add: knownJob_def exJobs_def exJob_def)
  from stage1_greedy_assignment [of undefined undefined undefined 0 "[]" "[]" 2 exJobs ?sq] k
  obtain sk qk jid job kit bi st sch where
    a: "stage1After 2 (initializeState exJobs ?sq, []) = Some (sk, qk)"
    and qu: "stage1Queue sk = drop 2 ?sq" and g: "?sq ! 2 = Some jid"
    and job: "jobsMap sk jid = Some job" and kit: "setupKits sk (family job) = Some kit"
    and gr: "greedyStage1 sk job kit bi st"
    and r: "runSimulation exJobs ?sq = Inr sch"
    and n: "jobs sch ! 2 = stage1Record sk jid job kit bi st" and l: "2 < length (jobs sch)"
    by blast
  have jid: "jid = 3" using g by simp
  have qu': "stage1Queue sk = [Some 3]" using qu by simp
  have job': "jobsMap sk 3 = Some job" using job jid by simp
  have n': "jobs sch ! 2 = stage1Record sk 3 job kit bi st" using n jid by simp
  have "map (\<lambda>r. (jobId r, machineId r, setupTime r, setupType r, setupStartTime r,
                  startTime r, endTime r)) (take 3 (jobs sch)) ! 2
          = (3, 1, 20, SetupMinor, Some 75, 95, 115)"
    using stage1_example r by simp
  then have v: "(jobId (jobs sch ! 2), machineId (jobs sch ! 2), setupTime (jobs sch ! 2),
       setupType (jobs sch ! 2), setupStartTime (jobs sch ! 2), startTime (jobs sch ! 2),
       endTime (jobs sch ! 2)) = (3, 1, 20, SetupMinor, Some 75, 95, 115)"
    using l by simp
  show "\<exists>sk qk job kit bi st sch.
      stage1After 2 (initializeState exJobs ?sq, []) = Some (sk, qk) \<and>
      stage1Queue sk = [Some 3] \<and> jobsMap sk 3 = Some job \<and>
      setupKits sk (family job) = Some kit \<and>
      greedyStage1 sk job kit bi st \<and>
      runSimulation exJobs ?sq = Inr sch \<and>
      jobs sch ! 2 = stage1Record sk 3 job kit bi st \<and>
      (jobId (jobs sch ! 2), machineId (jobs sch ! 2), setupTime (jobs sch ! 2),
       setupType (jobs sch ! 2), setupStartTime (jobs sch ! 2), startTime (jobs sch ! 2),
       endTime (jobs sch ! 2)) = (3, 1, 20, SetupMinor, Some 75, 95, 115)"
    by (intro exI [of _ sk] exI [of _ qk] exI [of _ job] exI [of _ kit] exI [of _ bi]
              exI [of _ st] exI [of _ sch] conjI a qu' job' kit gr r n' v)
qed

section \<open>Stage-2 assignment\<close>

























lemma mset_push: "mset (push e q) = add_mset e (mset q)"
  by (simp add: push_def)

lemma mset_filter_push:
  "mset (map f (filter P (push e q)))
     = mset (map f (filter P q)) + (if P e then {#f e#} else {#})"
proof -
  have "mset (map f (filter P (push e q))) = image_mset f (filter_mset P (mset (push e q)))"
    by (simp only: mset_map mset_filter)
  also have "\<dots> = image_mset f (filter_mset P (mset q)) + (if P e then {#f e#} else {#})"
    by (simp add: mset_push)
  finally show ?thesis by (simp only: mset_map mset_filter)
qed












section \<open>Mutation and crossover keep the ids\<close>

lemma randomIndex_less: "0 \<le> r \<Longrightarrow> r < 1 \<Longrightarrow> 0 < n \<Longrightarrow> randomIndex r n < n"
proof -
  assume r: "0 \<le> r" "r < 1" and n: "0 < n"
  have "r * real n < real n" using r n by simp
  then have "\<lfloor>r * real n\<rfloor> < int n" by (simp add: floor_less_iff)
  moreover have "0 \<le> \<lfloor>r * real n\<rfloor>" using r by simp
  ultimately show ?thesis by (simp add: randomIndex_def nat_less_iff)
qed

lemma jsGet_in: "i < length xs \<Longrightarrow> jsGet xs i = xs ! i"
  by (simp add: jsGet_def)

lemma jsSet_in: "i < length xs \<Longrightarrow> jsSet xs i v = xs[i := v]"
  by (simp add: jsSet_def)

lemma mset_swap_js:
  assumes "i < length c" "j < length c"
  shows "mset (jsSet (jsSet c i (jsGet c j)) j (jsGet c i)) = mset c"
  using assms by (simp add: jsSet_in jsGet_in mset_swap)

lemma swapMutation_mset:
  assumes "c \<noteq> []" "0 \<le> r1" "r1 < 1" "0 \<le> r2" "r2 < 1"
  shows "mset (swapMutation c r1 r2) = mset c"
proof -
  have n: "0 < length c" using assms(1) by simp
  have i: "randomIndex r1 (length c) < length c" by (rule randomIndex_less [OF assms(2,3) n])
  have j: "randomIndex r2 (length c) < length c" by (rule randomIndex_less [OF assms(4,5) n])
  show ?thesis using mset_swap_js [OF i j] by (simp add: swapMutation_def Let_def)
qed

lemma mset_remove_insert:
  assumes "i < length c" "k \<le> length c - 1"
  shows "mset (take k (take i c @ drop (Suc i) c) @ [c ! i] @ drop k (take i c @ drop (Suc i) c))
           = mset c"
proof -
  let ?r = "take i c @ drop (Suc i) c"
  have "mset (take k ?r @ [c ! i] @ drop k ?r) = mset (take k ?r @ drop k ?r) + {#c ! i#}"
    by simp
  also have "\<dots> = mset ?r + {#c ! i#}" by (simp only: append_take_drop_id)
  also have "\<dots> = mset (take i c @ c ! i # drop (Suc i) c)" by simp
  also have "\<dots> = mset c" using assms(1) by (simp only: id_take_nth_drop [symmetric])
  finally show ?thesis .
qed

lemma insertMutation_mset:
  assumes "c \<noteq> []" "0 \<le> r1" "r1 < 1" "0 \<le> r2" "r2 < 1"
  shows "mset (insertMutation c r1 r2) = mset c"
proof -
  have n: "0 < length c" using assms(1) by simp
  have i: "randomIndex r1 (length c) < length c" by (rule randomIndex_less [OF assms(2,3) n])
  have j: "randomIndex r2 (length c) < length c" by (rule randomIndex_less [OF assms(4,5) n])
  let ?i = "randomIndex r1 (length c)" and ?j = "randomIndex r2 (length c)"
  let ?r = "take ?i c @ drop (Suc ?i) c"
  have lr: "length ?r = length c - 1" using i by simp
  have k: "min ?j (length ?r) \<le> length c - 1" using lr by simp
  show ?thesis
    using mset_remove_insert [OF i k] i
    by (simp add: insertMutation_def Let_def jsGet_in del: append_take_drop_id)
qed

lemma rot_inj_le:
  assumes "(a + k) mod n = (a + k') mod n" "k \<le> k'" "k' < (n::nat)"
  shows "k = k'"
proof -
  have le: "a + k \<le> a + k'" using assms(2) by simp
  have "n dvd (a + k') - (a + k)"
    using mod_eq_dvd_iff_nat [OF le, of n] assms(1) by metis
  then have "n dvd k' - k" by simp
  moreover have "k' - k < n" using assms(3) by simp
  ultimately have "k' - k = 0" by (meson dvd_imp_le not_less zero_less_iff_neq_zero)
  then show ?thesis using assms(2) by simp
qed

lemma rot_inj:
  assumes "(a + k) mod n = (a + k') mod n" "k < n" "k' < (n::nat)"
  shows "k = k'"
proof (cases "k \<le> k'")
  case True
  then show ?thesis using rot_inj_le [OF assms(1) True assms(3)] by simp
next
  case False
  then have "k' \<le> k" by simp
  then show ?thesis using rot_inj_le [OF assms(1) [symmetric] _ assms(2)] by simp
qed

lemma rot_Suc: "0 < n \<Longrightarrow> ((a + c) mod n + 1) mod n = (a + Suc c) mod (n::nat)"
  by presburger

lemma mset_sub_size_eq:
  assumes "A \<subseteq># B" "size A = size B"
  shows "A = (B::'a multiset)"
proof (rule ccontr)
  assume "A \<noteq> B"
  then have "A \<subset># B" using assms(1) by (simp add: subset_mset.less_le)
  then have "size A < size B" by (rule mset_subset_size)
  then show False using assms(2) by simp
qed

lemma in_set_update_other:
  assumes "y \<in> set xs" "y \<noteq> xs ! i"
  shows "y \<in> set (xs[i := x])"
proof -
  obtain j where j: "j < length xs" "xs ! j = y" using assms(1) by (auto simp: in_set_conv_nth)
  then have "j \<noteq> i" using assms(2) by auto
  then have "xs[i := x] ! j = y" using j by simp
  then show ?thesis using j(1) by (metis length_list_update nth_mem)
qed

lemma add_sub_mset: "F \<subseteq># B \<Longrightarrow> x \<in># B \<Longrightarrow> x \<notin># F \<Longrightarrow> add_mset x F \<subseteq># B"
  by (metis diff_single_trivial insert_DiffM2 insert_subset_eq_iff subset_eq_diff_conv)

text \<open>The child after the \<open>for\<close> loop: markers, the segment of parent 1, markers.\<close>

lemma copySegment_upto:
  assumes "s \<le> m" "m \<le> length p1"
  shows "fold (\<lambda>i c. jsSet c i (jsGet p1 i)) [s..<m] (replicate (length p1) v)
           = replicate s v @ take (m - s) (drop s p1) @ replicate (length p1 - m) v"
  using assms
proof (induction m)
  case 0
  then show ?case by simp
next
  case (Suc m)
  show ?case
  proof (cases "s = Suc m")
    case True
    have "replicate (length p1) v = replicate (Suc m) v @ replicate (length p1 - Suc m) v"
      using Suc.prems(2) by (metis le_add_diff_inverse replicate_add)
    then show ?thesis using True by simp
  next
    case False
    then have sm: "s \<le> m" using Suc.prems(1) by simp
    have ml: "m < length p1" using Suc.prems(2) by simp
    let ?prev = "replicate s v @ take (m - s) (drop s p1) @ replicate (length p1 - m) v"
    have ih: "fold (\<lambda>i c. jsSet c i (jsGet p1 i)) [s..<m] (replicate (length p1) v) = ?prev"
      using Suc.IH sm ml by simp
    have lp: "length ?prev = length p1" using sm ml by simp
    have r: "replicate (length p1 - m) v = v # replicate (length p1 - Suc m) v"
      using ml by (metis Suc_diff_Suc replicate_Suc)
    have upd: "?prev[m := p1 ! m]
             = replicate s v @ take (m - s) (drop s p1) @ [p1 ! m] @ replicate (length p1 - Suc m) v"
      using sm ml by (simp add: list_update_append r)
    have tk: "take (Suc m - s) (drop s p1) = take (m - s) (drop s p1) @ [p1 ! m]"
    proof -
      have "Suc m - s = Suc (m - s)" using sm by simp
      moreover have "m - s < length (drop s p1)" using sm ml by simp
      moreover have "drop s p1 ! (m - s) = p1 ! m" using sm ml by simp
      ultimately show ?thesis by (simp add: take_Suc_conv_app_nth)
    qed
    have "fold (\<lambda>i c. jsSet c i (jsGet p1 i)) [s..<Suc m] (replicate (length p1) v)
            = jsSet ?prev m (jsGet p1 m)"
      using sm ih by simp
    also have "\<dots> = ?prev[m := p1 ! m]" using ml lp by (simp add: jsSet_in jsGet_in)
    finally show ?thesis using upd tk by simp
  qed
qed

lemma copySegment_eq:
  assumes "s \<le> e" "e < length p1"
  shows "copySegment p1 s e (replicate (length p1) v)
           = replicate s v @ take (Suc e - s) (drop s p1) @ replicate (length p1 - Suc e) v"
  unfolding copySegment_def using copySegment_upto [of s "Suc e" p1 v] assms by simp

lemma fillInv_done:
  assumes inv: "fillInv p1 p2 a L t cnt child" and no: "Some (- 1) \<notin> set child"
  shows "mset child = mset p1"
proof -
  have "filter_mset (\<lambda>x. x \<noteq> Some (- 1)) (mset child) = mset child"
    using no by (auto simp: filter_mset_eq_conv)
  then have "mset child \<subseteq># mset p1" using inv by (simp add: fillInv_def)
  moreover have "size (mset child) = size (mset p1)" using inv by (simp add: fillInv_def)
  ultimately show ?thesis by (rule mset_sub_size_eq)
qed

lemma fillInv_not_exhausted:
  assumes inv: "fillInv p1 p2 a L t cnt child" and m: "Some (- 1) \<in> set child"
      and n: "0 < length p1" and l2: "length p2 = length p1" and d2: "distinct p2"
      and m2: "Some (- 1) \<notin> set p2"
  shows "t < length p1"
proof (rule ccontr)
  assume "\<not> t < length p1"
  then have all: "\<forall>k < length p1. p2 ! ((a + k) mod length p1) \<in> set child"
    using inv by (simp add: fillInv_def)
  have "set p2 \<subseteq> set child"
  proof
    fix y assume "y \<in> set p2"
    then have "y \<in> set (rotate a p2)" by simp
    then obtain k where k: "k < length p2" "rotate a p2 ! k = y"
      by (metis in_set_conv_nth length_rotate)
    then have "y = p2 ! ((a + k) mod length p2)" by (simp add: nth_rotate)
    then show "y \<in> set child" using all k(1) l2 by simp
  qed
  then have "insert (Some (- 1)) (set p2) \<subseteq> set child" using m by simp
  then have "card (insert (Some (- 1)) (set p2)) \<le> card (set child)"
    by (simp add: card_mono)
  moreover have "card (insert (Some (- 1)) (set p2)) = Suc (length p2)"
    using m2 d2 by (simp add: distinct_card)
  moreover have "card (set child) \<le> length child" by (rule card_length)
  moreover have "length child = length p1" using inv by (simp add: fillInv_def)
  ultimately show False using l2 by simp
qed

lemma fillInv_skip:
  assumes inv: "fillInv p1 p2 a L t cnt child"
      and x: "p2 ! ((a + t) mod length p1) \<in> set child"
  shows "fillInv p1 p2 a L (Suc t) cnt child"
  using assms by (auto simp: fillInv_def less_Suc_eq)

lemma fillInv_fill:
  assumes inv: "fillInv p1 p2 a L t cnt child" and m: "Some (- 1) \<in> set child"
      and n: "0 < length p1"
      and x1: "x \<in> set p1" and xm: "x \<noteq> Some (- 1)" and xc: "x \<notin> set child"
      and xt: "x = p2 ! ((a + t) mod length p1)"
      and m2: "Some (- 1) \<notin> set p2" and l2: "length p2 = length p1"
  shows "fillInv p1 p2 a L (Suc t) (Suc cnt) (child[(a + cnt) mod length p1 := x])"
proof -
  let ?n = "length p1" and ?ci = "(a + cnt) mod length p1" and ?M = "Some (- 1) :: int option"
  have len: "length child = ?n" and cl: "cnt \<le> L" and ln: "L \<le> ?n"
    and k2: "\<And>k. cnt \<le> k \<Longrightarrow> k < L \<Longrightarrow> child ! ((a + k) mod ?n) = ?M"
    and k3: "count (mset child) ?M = L - cnt"
    and k4: "filter_mset (\<lambda>x. x \<noteq> ?M) (mset child) \<subseteq># mset p1"
    and k5: "\<And>k. k < t \<Longrightarrow> p2 ! ((a + k) mod ?n) \<in> set child"
    using inv by (simp_all add: fillInv_def)
  have "0 < count (mset child) ?M" using m by simp
  then have cnt: "cnt < L" using k3 by simp
  have ci: "?ci < length child" using n len by simp
  have at: "child ! ?ci = ?M" using k2 [of cnt] cnt by simp
  have ms: "mset (child[?ci := x]) = add_mset x (mset child - {#?M#})"
    using ci at by (simp add: mset_update)
  have 1: "length (child[?ci := x]) = ?n" using len by simp
  have 2: "\<forall>k. Suc cnt \<le> k \<and> k < L \<longrightarrow> (child[?ci := x]) ! ((a + k) mod ?n) = ?M"
  proof (intro allI impI)
    fix k assume k: "Suc cnt \<le> k \<and> k < L"
    have "(a + k) mod ?n \<noteq> ?ci"
    proof
      assume "(a + k) mod ?n = ?ci"
      then have "k = cnt" using rot_inj [of a k ?n cnt] k cnt ln by simp
      then show False using k by simp
    qed
    then show "(child[?ci := x]) ! ((a + k) mod ?n) = ?M" using k2 [of k] k by simp
  qed
  have 3: "count (mset (child[?ci := x])) ?M = L - Suc cnt"
    using ms k3 xm by simp
  have "filter_mset (\<lambda>x. x \<noteq> ?M) (mset (child[?ci := x]))
          = add_mset x (filter_mset (\<lambda>x. x \<noteq> ?M) (mset child))"
    using ms xm by simp
  moreover have "x \<notin># filter_mset (\<lambda>x. x \<noteq> ?M) (mset child)" using xc by simp
  ultimately have 4: "filter_mset (\<lambda>x. x \<noteq> ?M) (mset (child[?ci := x])) \<subseteq># mset p1"
    using add_sub_mset [OF k4] x1 by simp
  have 5: "\<forall>k < Suc t. p2 ! ((a + k) mod ?n) \<in> set (child[?ci := x])"
  proof (intro allI impI)
    fix k assume k: "k < Suc t"
    show "p2 ! ((a + k) mod ?n) \<in> set (child[?ci := x])"
    proof (cases "k = t")
      case True
      then show ?thesis using xt ci by (simp add: set_update_memI)
    next
      case False
      then have "p2 ! ((a + k) mod ?n) \<in> set child" using k k5 by simp
      moreover have "p2 ! ((a + k) mod ?n) \<in> set p2" using n l2 by simp
      then have "p2 ! ((a + k) mod ?n) \<noteq> child ! ?ci" using m2 at by auto
      ultimately show ?thesis by (rule in_set_update_other)
    qed
  qed
  show ?thesis using 1 2 3 4 5 cnt ln by (simp add: fillInv_def)
qed

lemma mset_take_sub: "mset (take n xs) \<subseteq># mset xs"
proof -
  have "mset xs = mset (take n xs) + mset (drop n xs)"
    by (metis append_take_drop_id mset_append)
  then show ?thesis by simp
qed

lemma mset_drop_sub: "mset (drop n xs) \<subseteq># mset xs"
proof -
  have "mset xs = mset (take n xs) + mset (drop n xs)"
    by (metis append_take_drop_id mset_append)
  then show ?thesis by simp
qed

lemma mset_segment_sub: "mset (take j (drop s xs)) \<subseteq># mset xs"
  using mset_take_sub [of j "drop s xs"] mset_drop_sub [of s xs]
  by (rule subset_mset.order_trans)

lemma fillInv_initial:
  assumes se: "s \<le> e" and en: "e < length p1" and m1: "Some (- 1) \<notin> set p1"
  shows "fillInv p1 p2 (e + 1) (s + (length p1 - Suc e)) 0 0
           (copySegment p1 s e (replicate (length p1) (Some (- 1))))"
proof -
  let ?n = "length p1" and ?M = "Some (- 1) :: int option"
  let ?seg = "take (Suc e - s) (drop s p1)"
  let ?child = "replicate s ?M @ ?seg @ replicate (?n - Suc e) ?M"
  have ch: "copySegment p1 s e (replicate ?n ?M) = ?child" by (rule copySegment_eq [OF se en])
  have ls: "length ?seg = Suc e - s" using se en by simp
  have 1: "length ?child = ?n" using se en by simp
  have segM: "?M \<notin> set ?seg" using m1 by (meson in_set_dropD in_set_takeD)
  have 2: "\<forall>k. 0 \<le> k \<and> k < s + (?n - Suc e) \<longrightarrow> ?child ! ((e + 1 + k) mod ?n) = ?M"
  proof (intro allI impI)
    fix k assume k: "0 \<le> k \<and> k < s + (?n - Suc e)"
    show "?child ! ((e + 1 + k) mod ?n) = ?M"
    proof (cases "e + 1 + k < ?n")
      case True
      then have i: "(e + 1 + k) mod ?n = e + 1 + k" by simp
      have "?child ! (length (replicate s ?M) + (length ?seg + k))
              = replicate (?n - Suc e) ?M ! k"
        by (simp only: nth_append_length_plus)
      moreover have "length (replicate s ?M) + (length ?seg + k) = e + 1 + k"
        using se ls by simp
      ultimately have "?child ! (e + 1 + k) = replicate (?n - Suc e) ?M ! k" by simp
      then show ?thesis using i True by simp
    next
      case False
      have lt: "e + 1 + k - ?n < s" using k False en by simp
      have "(e + 1 + k) mod ?n = (e + 1 + k - ?n) mod ?n"
        using False by (simp add: le_mod_geq)
      also have "\<dots> = e + 1 + k - ?n" using lt se en by simp
      finally have i: "(e + 1 + k) mod ?n = e + 1 + k - ?n" .
      have "?child ! (e + 1 + k - ?n) = replicate s ?M ! (e + 1 + k - ?n)"
        using lt by (simp only: nth_append length_replicate if_True)
      also have "\<dots> = ?M" using lt by (simp only: nth_replicate)
      finally show ?thesis unfolding i .
    qed
  qed
  have cs: "count (mset ?seg) ?M = 0" using segM by (simp add: count_eq_zero_iff)
  have 3: "count (mset ?child) ?M = s + (?n - Suc e) - 0"
    using cs by simp
  have fs: "filter_mset (\<lambda>x. x \<noteq> ?M) (mset ?seg) = mset ?seg"
    using segM by (auto simp: filter_mset_eq_conv)
  have fr: "\<And>j. filter_mset (\<lambda>x. x \<noteq> ?M) (replicate_mset j ?M) = {#}"
    by simp
  have "filter_mset (\<lambda>x. x \<noteq> ?M) (mset ?child) = mset ?seg"
    by (simp only: mset_append mset_replicate filter_union_mset fs fr) simp
  then have 4: "filter_mset (\<lambda>x. x \<noteq> ?M) (mset ?child) \<subseteq># mset p1"
    using mset_segment_sub [of "Suc e - s" s p1] by simp
  have 5: "s + (?n - Suc e) \<le> ?n" using se en by simp
  show ?thesis unfolding ch fillInv_def using 1 2 3 4 5 by simp
qed

lemma fillFromParent2_returns:
  assumes n: "0 < length p1" and l2: "length p2 = length p1" and d2: "distinct p2"
      and m2: "Some (- 1) \<notin> set p2" and s12: "set p2 = set p1"
  shows "fillInv p1 p2 a L t cnt child \<Longrightarrow>
         \<exists>r. fillFromParent2 p2 (length p1) child ((a + cnt) mod length p1) ((a + t) mod length p1)
               = Some r \<and> mset r = mset p1"
proof (induction d \<equiv> "length p1 - t" arbitrary: t cnt child rule: less_induct)
  case less
  let ?n = "length p1" and ?M = "Some (- 1) :: int option"
  let ?ci = "(a + cnt) mod ?n" and ?pi = "(a + t) mod ?n"
  note inv = less.prems
  have len: "length child = ?n" using inv by (simp add: fillInv_def)
  show ?case
  proof (cases "?M \<in> set child")
    case False
    have "fillFromParent2 p2 ?n child ?ci ?pi = Some child"
      using False by (subst fillFromParent2.simps) simp
    then show ?thesis using fillInv_done [OF inv False] by simp
  next
    case True
    have t: "t < ?n" by (rule fillInv_not_exhausted [OF inv True n l2 d2 m2])
    have pi: "?pi < length p2" using n l2 by simp
    have ci: "?ci < length child" using n len by simp
    let ?x = "p2 ! ?pi"
    have dec: "?n - Suc t < ?n - t" using t by simp
    show ?thesis
    proof (cases "?x \<in> set child")
      case True
      have inv': "fillInv p1 p2 a L (Suc t) cnt child" by (rule fillInv_skip [OF inv True])
      from less.hyps [OF dec inv'] obtain r where
        r: "fillFromParent2 p2 ?n child ?ci ((a + Suc t) mod ?n) = Some r" "mset r = mset p1"
        by blast
      have "fillFromParent2 p2 ?n child ?ci ?pi
              = fillFromParent2 p2 ?n child ?ci ((a + Suc t) mod ?n)"
        using \<open>?M \<in> set child\<close> True pi rot_Suc [OF n, of a t]
        by (subst fillFromParent2.simps) (simp add: jsGet_in)
      then show ?thesis using r by simp
    next
      case False
      have x2: "?x \<in> set p2" using pi by simp
      have inv': "fillInv p1 p2 a L (Suc t) (Suc cnt) (child[?ci := ?x])"
        by (rule fillInv_fill [OF inv \<open>?M \<in> set child\<close> n _ _ False refl m2 l2])
           (use x2 s12 m2 in auto)
      from less.hyps [OF dec inv'] obtain r where
        r: "fillFromParent2 p2 ?n (child[?ci := ?x]) ((a + Suc cnt) mod ?n) ((a + Suc t) mod ?n)
              = Some r" "mset r = mset p1"
        by blast
      have "fillFromParent2 p2 ?n child ?ci ?pi
              = fillFromParent2 p2 ?n (child[?ci := ?x]) ((a + Suc cnt) mod ?n) ((a + Suc t) mod ?n)"
        using \<open>?M \<in> set child\<close> False pi ci rot_Suc [OF n, of a t] rot_Suc [OF n, of a cnt]
        by (subst fillFromParent2.simps) (simp add: jsGet_in jsSet_in)
      then show ?thesis using r by simp
    qed
  qed
qed

lemma orderCrossoverAt_perm:
  assumes ne: "p1 \<noteq> []" and d1: "distinct p1" and p: "mset p2 = mset p1"
      and m1: "Some (- 1) \<notin> set p1" and se: "s \<le> e" and en: "e < length p1"
  shows "\<exists>child. orderCrossoverAt p1 p2 s e = Some child \<and> mset child = mset p1"
proof -
  have n: "0 < length p1" using ne by simp
  have l2: "length p2 = length p1" using p by (rule mset_eq_length)
  have s12: "set p2 = set p1" using p by (rule mset_eq_setD)
  have d2: "distinct p2" using mset_eq_imp_distinct_iff [OF p] d1 by simp
  have m2: "Some (- 1) \<notin> set p2" using m1 s12 by simp
  have inv: "fillInv p1 p2 (e + 1) (s + (length p1 - Suc e)) 0 0
           (copySegment p1 s e (replicate (length p1) (Some (- 1))))"
    by (rule fillInv_initial [OF se en m1])
  from fillFromParent2_returns [OF n l2 d2 m2 s12 inv] show ?thesis
    by (simp add: orderCrossoverAt_def Let_def)
qed

lemma orderCrossover_perm:
  assumes ne: "p1 \<noteq> []" and d1: "distinct p1" and p: "mset p2 = mset p1"
      and m1: "Some (- 1) \<notin> set p1"
      and r1: "0 \<le> r1" "r1 < 1" and r2: "0 \<le> r2" "r2 < 1"
  shows "\<exists>child. orderCrossover p1 p2 r1 r2 = Some child \<and> mset child = mset p1"
proof -
  let ?n = "length p1"
  let ?s = "randomIndex r1 ?n"
  let ?e = "randomIndex r2 (?n - ?s) + ?s"
  have n: "0 < ?n" using ne by simp
  have s: "?s < ?n" by (rule randomIndex_less [OF r1 n])
  have "randomIndex r2 (?n - ?s) < ?n - ?s" by (rule randomIndex_less [OF r2]) (use s in simp)
  then have e: "?s \<le> ?e" "?e < ?n" by simp_all
  from orderCrossoverAt_perm [OF ne d1 p m1 e] show ?thesis
    by (simp add: orderCrossover_def Let_def)
qed

section \<open>The population holds permutations\<close>

lemma evaluateFitness_total: "\<exists>ev. evaluateFitness js c w = Inr ev"
proof -
  obtain left sq' where "simulate maxIterations js c = Inr (left, sq')"
    and "runSimulation js c = Inr (buildSchedule (fst sq'))"
    using runSimulation_Inr [of js c] by blast
  then show ?thesis by (simp add: evaluateFitness_def Let_def)
qed

lemma individual_total: "\<exists>ind. individual js c w = Inr ind \<and> chromosome ind = c"
  using evaluateFitness_total [of js c w] by (auto simp: individual_def)

lemma individual_chromosome: "individual js c w = Inr ind \<Longrightarrow> chromosome ind = c"
  using individual_total [of js c w] by auto

lemma shuffleFrom_mset:
  assumes "unitRange rnd"
  shows "i < length c \<Longrightarrow> mset (fst (shuffleFrom i c rnd k)) = mset c"
proof (induction i arbitrary: c k)
  case 0
  then show ?case by simp
next
  case (Suc i)
  let ?j = "randomIndex (rnd k) (Suc i + 1)"
  have "?j < Suc i + 1"
    using assms by (intro randomIndex_less) (simp_all add: unitRange_def)
  then have j: "?j < length c" using Suc.prems by simp
  let ?c' = "jsSet (jsSet c (Suc i) (jsGet c ?j)) ?j (jsGet c (Suc i))"
  have m: "mset ?c' = mset c" by (rule mset_swap_js [OF Suc.prems j])
  then have "length ?c' = length c" by (rule mset_eq_length)
  then have "i < length ?c'" using Suc.prems by simp
  from Suc.IH [OF this, of "Suc k"] show ?case using m by (simp add: Let_def)
qed

lemma shuffle_mset: "unitRange rnd \<Longrightarrow> mset (fst (shuffle c rnd k)) = mset c"
proof (cases "c = []")
  case True
  then show ?thesis by (simp add: shuffle_def)
next
  case False
  assume "unitRange rnd"
  then show ?thesis using False by (simp add: shuffle_def shuffleFrom_mset)
qed

lemma randomIndividuals_perm:
  assumes "unitRange rnd"
  shows "\<forall>ind \<in> set population. mset (chromosome ind) = mset (idsOf js) \<Longrightarrow>
         randomIndividuals n js w population rnd k = Inr (popn', k') \<Longrightarrow>
         \<forall>ind \<in> set popn'. mset (chromosome ind) = mset (idsOf js)"
proof (induction n arbitrary: population k)
  case 0
  then show ?case by simp
next
  case (Suc n)
  obtain c k1 where sh: "shuffle (idsOf js) rnd k = (c, k1)" by (cases "shuffle (idsOf js) rnd k")
  have c: "mset c = mset (idsOf js)" using shuffle_mset [OF assms, of "idsOf js" k] sh by simp
  obtain ind where ind: "individual js c w = Inr ind" "chromosome ind = c"
    using individual_total by blast
  have r: "randomIndividuals n js w (population @ [ind]) rnd k1 = Inr (popn', k')"
    using Suc.prems(2) sh ind(1) by (simp add: idsOf_def)
  have "\<forall>i \<in> set (population @ [ind]). mset (chromosome i) = mset (idsOf js)"
    using Suc.prems(1) ind(2) c by simp
  from Suc.IH [OF this r] show ?case .
qed

lemma createInitialPopulation_perm:
  assumes "unitRange rnd"
      and "\<forall>c. initialSequence = Some c \<longrightarrow> mset c = mset (idsOf js)"
      and "createInitialPopulation js n w initialSequence rnd k = Inr (popn, k')"
  shows "\<forall>ind \<in> set popn. mset (chromosome ind) = mset (idsOf js)"
proof (cases initialSequence)
  case None
  then have "randomIndividuals (nat (n - int (length ([]::Individual list)))) js w [] rnd k
               = Inr (popn, k')"
    using assms(3) by (simp add: createInitialPopulation_def)
  from randomIndividuals_perm [OF assms(1) _ this] show ?thesis by simp
next
  case (Some c)
  obtain ind where ind: "individual js c w = Inr ind" "chromosome ind = c"
    using individual_total by blast
  have "randomIndividuals (nat (n - int (length [ind]))) js w [ind] rnd k = Inr (popn, k')"
    using assms(3) Some ind(1) by (simp add: createInitialPopulation_def)
  moreover have "\<forall>i \<in> set [ind]. mset (chromosome i) = mset (idsOf js)"
    using assms(2) Some ind(2) by simp
  ultimately show ?thesis using randomIndividuals_perm [OF assms(1)] by blast
qed

lemma set_map_filter_id: "set (List.map_filter (\<lambda>x. x) xs) = {y. Some y \<in> set xs}"
  by (induction xs) (auto simp: map_filter_simps split: option.splits)

lemma sortPopulation_mem: "Some ind \<in> set (sortPopulation population) \<longleftrightarrow> Some ind \<in> set population"
  by (auto simp: sortPopulation_def set_map_filter_id)

lemma jsGet_mem: "jsGet xs i = Some x \<Longrightarrow> Some x \<in> set xs"
  by (cases "i < length xs") (auto simp: jsGet_def dest: nth_mem)

lemma elites_mem: "Some ind \<in> set (elites population config) \<Longrightarrow> Some ind \<in> set population"
  by (auto simp: elites_def dest: jsGet_mem [OF sym])

lemma reduceFittest_mem:
  "reduceFittest best rest = Inr r \<Longrightarrow> r = best \<or> r \<in> set rest"
proof (induction rest arbitrary: best)
  case Nil
  then show ?case by simp
next
  case (Cons cur rest)
  then show ?case
    by (cases cur; cases best) (fastforce split: if_splits)+
qed

lemma tournamentSelection_mem:
  assumes "tournamentSelection population tSize rnd k = Inr (Some ind, k')"
  shows "Some ind \<in> set population"
proof -
  let ?t = "map (\<lambda>i. jsGet population (randomIndex (rnd (k + i)) (length population))) [0..<nat tSize]"
  obtain first rest where t: "?t = first # rest"
    using assms by (cases ?t) (simp_all add: tournamentSelection_def Let_def)
  have "reduceFittest first rest = Inr (Some ind)"
    using assms t by (simp add: tournamentSelection_def Let_def split: sum.splits)
  from reduceFittest_mem [OF this] have "Some ind \<in> set ?t" using t by auto
  then obtain i where "jsGet population i = Some ind" by auto
  then show ?thesis by (rule jsGet_mem)
qed

lemma idsOf_valid:
  assumes "validIds js"
  shows "idsOf js \<noteq> []" "distinct (idsOf js)" "Some (- 1) \<notin> set (idsOf js)"
  using assms by (auto simp: validIds_def idsOf_def distinct_map inj_on_def)

lemma perm_facts:
  assumes "validIds js" and "mset c = mset (idsOf js)"
  shows "c \<noteq> []" "distinct c" "Some (- 1) \<notin> set c"
proof -
  show "c \<noteq> []" using assms idsOf_valid(1) by (metis mset_zero_iff)
  show "distinct c" using mset_eq_imp_distinct_iff [OF assms(2)] idsOf_valid(2) [OF assms(1)] by simp
  show "Some (- 1) \<notin> set c" using mset_eq_setD [OF assms(2)] idsOf_valid(3) [OF assms(1)] by simp
qed

lemma reduceFittest_error: "reduceFittest best rest = Inl e \<Longrightarrow> e = TypeError"
proof (induction rest arbitrary: best)
  case Nil
  then show ?case by simp
next
  case (Cons cur rest)
  then show ?case
    by (cases cur; cases best) (fastforce split: if_splits)+
qed

lemma tournamentSelection_error:
  "tournamentSelection population tSize rnd k = Inl e \<Longrightarrow> e = TypeError"
  by (auto simp: tournamentSelection_def Let_def split: list.splits sum.splits
           dest: reduceFittest_error)

lemma individual_error: "individual js c w \<noteq> Inl e"
  using individual_total [of js c w] by auto

lemma makeOffspring_perm:
  assumes v: "validIds js" and u: "unitRange rnd" and pp: "popPerm js population"
  shows "makeOffspring js config rate population rnd k \<noteq> Inl Diverges \<and>
         (\<forall>ind k'. makeOffspring js config rate population rnd k = Inr (ind, k')
             \<longrightarrow> mset (chromosome ind) = mset (idsOf js))"
proof (cases "tournamentSelection population (tournamentSize config) rnd k")
  case (Inl e)
  then have "makeOffspring js config rate population rnd k = Inl TypeError"
    using tournamentSelection_error [OF Inl] by (simp add: makeOffspring_def)
  then show ?thesis by simp
next
  case (Inr a)
  obtain parent1 k1 where a: "a = (parent1, k1)" by (cases a)
  note t1 = Inr [unfolded a]
  show ?thesis
  proof (cases "tournamentSelection population (tournamentSize config) rnd k1")
    case (Inl e)
    then have "makeOffspring js config rate population rnd k = Inl TypeError"
      using tournamentSelection_error [OF Inl] t1 by (simp add: makeOffspring_def)
    then show ?thesis by simp
  next
    case (Inr b)
    obtain parent2 k2 where b: "b = (parent2, k2)" by (cases b)
    note t2 = Inr [unfolded b]
    define cross where "cross =
      (if rnd k2 < crossoverRate config
            then (case (parent1, parent2) of
                    (Some p1, Some p2) \<Rightarrow>
                      (case orderCrossover (chromosome p1) (chromosome p2)
                              (rnd (k2 + 1)) (rnd (k2 + 2)) of
                         None \<Rightarrow> Inl Diverges
                       | Some child \<Rightarrow> Inr (child, k2 + 3))
                  | _ \<Rightarrow> Inl TypeError)
            else (case parent1 of
                    Some p1 \<Rightarrow> Inr (chromosome p1, k2 + 1)
                  | None \<Rightarrow> Inl TypeError))"
    have r: "\<And>i. 0 \<le> rnd i" "\<And>i. rnd i < 1" using u by (simp_all add: unitRange_def)
    have par: "\<And>p. parent1 = Some p \<Longrightarrow> mset (chromosome p) = mset (idsOf js)"
              "\<And>p. parent2 = Some p \<Longrightarrow> mset (chromosome p) = mset (idsOf js)"
      using tournamentSelection_mem t1 t2 pp unfolding popPerm_def by blast+
    have cr: "cross = Inl TypeError \<or> (\<exists>c k3. cross = Inr (c, k3) \<and> mset c = mset (idsOf js))"
    proof (cases "rnd k2 < crossoverRate config")
      case False
      then show ?thesis using par(1) by (cases parent1) (simp_all add: cross_def)
    next
      case True
      show ?thesis
      proof (cases parent1)
        case None
        then show ?thesis using True by (simp add: cross_def)
      next
        case (Some p1)
        note p1 = this
        show ?thesis
        proof (cases parent2)
          case None
          then show ?thesis using True p1 by (simp add: cross_def)
        next
          case (Some p2)
          have m1: "mset (chromosome p1) = mset (idsOf js)" by (rule par(1) [OF p1])
          have m2: "mset (chromosome p2) = mset (chromosome p1)" using par(2) [OF Some] m1 by simp
          from orderCrossover_perm [OF perm_facts(1) [OF v m1] perm_facts(2) [OF v m1] m2
              perm_facts(3) [OF v m1] r(1) r(2) r(1) r(2), of "k2 + 1" "k2 + 2"]
          obtain child where "orderCrossover (chromosome p1) (chromosome p2)
                              (rnd (k2 + 1)) (rnd (k2 + 2)) = Some child"
            "mset child = mset (chromosome p1)" by blast
          then show ?thesis using True p1 Some m1 by (simp add: cross_def)
        qed
      qed
    qed
    have mo: "makeOffspring js config rate population rnd k =
      (case cross of
        Inl e \<Rightarrow> Inl e
      | Inr (offspring, k3) \<Rightarrow>
          (let mutated =
                 (if rnd k3 < rate
                  then (if mutationMethod config = Insert
                        then (insertMutation offspring (rnd (k3 + 1)) (rnd (k3 + 2)), k3 + 3)
                        else (swapMutation offspring (rnd (k3 + 1)) (rnd (k3 + 2)), k3 + 3))
                  else (offspring, k3 + 1))
           in case individual js (fst mutated) (tardinessWeight config) of
                Inl e \<Rightarrow> Inl e
              | Inr ind \<Rightarrow> Inr (ind, snd mutated)))"
      unfolding makeOffspring_def cross_def using t1 t2 by simp
    from cr show ?thesis
    proof
      assume "cross = Inl TypeError"
      then show ?thesis using mo by simp
    next
      assume "\<exists>c k3. cross = Inr (c, k3) \<and> mset c = mset (idsOf js)"
      then obtain c k3 where c: "cross = Inr (c, k3)" "mset c = mset (idsOf js)" by blast
      define mutated where "mutated = (if rnd k3 < rate
                  then (if mutationMethod config = Insert
                        then (insertMutation c (rnd (k3 + 1)) (rnd (k3 + 2)), k3 + 3)
                        else (swapMutation c (rnd (k3 + 1)) (rnd (k3 + 2)), k3 + 3))
                  else (c, k3 + 1))"
      have ne: "c \<noteq> []" by (rule perm_facts(1) [OF v c(2)])
      have mm: "mset (fst mutated) = mset (idsOf js)"
        using c(2) swapMutation_mset [OF ne r(1) r(2) r(1) r(2), of "k3 + 1" "k3 + 2"]
              insertMutation_mset [OF ne r(1) r(2) r(1) r(2), of "k3 + 1" "k3 + 2"]
        by (simp add: mutated_def)
      obtain ind where ind: "individual js (fst mutated) (tardinessWeight config) = Inr ind"
        "chromosome ind = fst mutated" using individual_total by blast
      have "makeOffspring js config rate population rnd k = Inr (ind, snd mutated)"
        using mo c(1) ind(1) by (simp add: mutated_def Let_def)
      then show ?thesis using ind(2) mm by simp
    qed
  qed
qed

lemma offspringLoop_perm:
  assumes v: "validIds js" and u: "unitRange rnd" and pp: "popPerm js population"
  shows "popPerm js newPopulation \<Longrightarrow>
         offspringLoop n js config rate population newPopulation rnd k \<noteq> Inl Diverges \<and>
         (\<forall>res k'. offspringLoop n js config rate population newPopulation rnd k = Inr (res, k')
             \<longrightarrow> popPerm js res)"
proof (induction n arbitrary: newPopulation k)
  case 0
  then show ?case by simp
next
  case (Suc n)
  note mk = makeOffspring_perm [OF v u pp, of config rate k]
  show ?case
  proof (cases "makeOffspring js config rate population rnd k")
    case (Inl e)
    then show ?thesis using mk by simp
  next
    case (Inr a)
    obtain ind k1 where a: "a = (ind, k1)" by (cases a)
    have "mset (chromosome ind) = mset (idsOf js)" using mk Inr a by simp
    then have "popPerm js (newPopulation @ [Some ind])"
      using Suc.prems by (auto simp: popPerm_def)
    from Suc.IH [OF this, of k1] show ?thesis using Inr a by simp
  qed
qed

lemma offspringLoop_prefix:
  "offspringLoop n js config rate population newPopulation rnd k = Inr (res, k') \<Longrightarrow>
   take (length newPopulation) res = newPopulation \<and> length res = length newPopulation + n"
proof (induction n arbitrary: newPopulation k)
  case 0
  then show ?case by simp
next
  case (Suc n)
  then obtain ind k1 where mk: "makeOffspring js config rate population rnd k = Inr (ind, k1)"
    and l: "offspringLoop n js config rate population (newPopulation @ [Some ind]) rnd k1 = Inr (res, k')"
    by (auto split: sum.splits)
  from Suc.IH [OF l] have "take (Suc (length newPopulation)) res = newPopulation @ [Some ind]"
    and len: "length res = length newPopulation + Suc n" by simp_all
  then have "take (length newPopulation) (take (Suc (length newPopulation)) res) = newPopulation"
    by simp
  then show ?case using len by (simp add: min_def)
qed

lemma nextGeneration_perm:
  assumes v: "validIds js" and u: "unitRange rnd" and pp: "popPerm js population"
  shows "nextGeneration js config rate population rnd k \<noteq> Inl Diverges \<and>
         (\<forall>res k'. nextGeneration js config rate population rnd k = Inr (res, k')
             \<longrightarrow> popPerm js res)"
proof -
  let ?sorted = "sortPopulation population"
  have ps: "popPerm js ?sorted" using pp by (simp add: popPerm_def sortPopulation_mem)
  have pe: "popPerm js (elites ?sorted config)"
    using ps elites_mem unfolding popPerm_def by blast
  show ?thesis
  proof (cases "jsGet ?sorted 0")
    case None
    then show ?thesis by (simp add: nextGeneration_def)
  next
    case (Some b)
    then show ?thesis
      using offspringLoop_perm [OF v u ps pe]
      by (simp add: nextGeneration_def Let_def)
  qed
qed

lemma nextGeneration_elites:
  assumes "nextGeneration js config rate population rnd k = Inr (res, k')"
  shows "take (nat (eliteCount config)) res = elites (sortPopulation population) config"
proof -
  let ?sorted = "sortPopulation population"
  obtain b where "jsGet ?sorted 0 = Some b"
    using assms by (cases "jsGet ?sorted 0") (simp_all add: nextGeneration_def)
  then have "offspringLoop (nat (populationSize config - int (length (elites ?sorted config))))
                js config rate ?sorted (elites ?sorted config) rnd k = Inr (res, k')"
    using assms by (simp add: nextGeneration_def Let_def)
  from offspringLoop_prefix [OF this] show ?thesis by (simp add: elites_def)
qed

lemma randomIndividuals_total:
  "\<exists>res k'. randomIndividuals n js w population rnd k = Inr (res, k')"
proof (induction n arbitrary: population k)
  case 0
  then show ?case by simp
next
  case (Suc n)
  obtain c k1 where sh: "shuffle (map (\<lambda>j. Some (j_id j)) js) rnd k = (c, k1)"
    by (cases "shuffle (map (\<lambda>j. Some (j_id j)) js) rnd k")
  obtain ind where ind: "individual js c w = Inr ind" using individual_total by blast
  from Suc.IH [of "population @ [ind]" k1] show ?case using sh ind by simp
qed

lemma createInitialPopulation_total:
  "\<exists>res k'. createInitialPopulation js n w initialSequence rnd k = Inr (res, k')"
proof (cases initialSequence)
  case None
  then show ?thesis using randomIndividuals_total by (simp add: createInitialPopulation_def)
next
  case (Some c)
  obtain ind where ind: "individual js c w = Inr ind" using individual_total by blast
  then show ?thesis using Some randomIndividuals_total by (simp add: createInitialPopulation_def)
qed

lemma populationAt_perm:
  assumes v: "validIds js" and u: "unitRange rnd"
      and i: "\<forall>c. initialSequence = Some c \<longrightarrow> mset c = mset (idsOf js)"
  shows "populationAt g js config initialSequence rates rnd \<noteq> Inl Diverges \<and>
         (\<forall>res k'. populationAt g js config initialSequence rates rnd = Inr (res, k')
             \<longrightarrow> popPerm js res)"
proof (induction g)
  case 0
  show ?case
  proof (cases "createInitialPopulation js (populationSize config) (tardinessWeight config)
             initialSequence rnd 0")
    case (Inl e)
    then show ?thesis
      using createInitialPopulation_total
        [of js "populationSize config" "tardinessWeight config" initialSequence rnd 0]
      by simp
  next
    case (Inr a)
    obtain popn k where a: "a = (popn, k)" by (cases a)
    from createInitialPopulation_perm [OF u i Inr [unfolded a]]
    have "popPerm js (map Some popn)" by (auto simp: popPerm_def)
    then show ?thesis using Inr a by simp
  qed
next
  case (Suc g)
  show ?case
  proof (cases "populationAt g js config initialSequence rates rnd")
    case (Inl e)
    then show ?thesis using Suc by simp
  next
    case (Inr a)
    obtain popn k where a: "a = (popn, k)" by (cases a)
    have "popPerm js popn" using Suc Inr a by simp
    from nextGeneration_perm [OF v u this, of config "rates g" k] show ?thesis
      using Inr a by simp
  qed
qed

section \<open>Every generation is reached\<close>

lemma randomIndividuals_length:
  "randomIndividuals n js w population rnd k = Inr (res, k') \<Longrightarrow>
   length res = length population + n"
proof (induction n arbitrary: population k)
  case 0
  then show ?case by simp
next
  case (Suc n)
  obtain c k1 where sh: "shuffle (map (\<lambda>j. Some (j_id j)) js) rnd k = (c, k1)"
    by (cases "shuffle (map (\<lambda>j. Some (j_id j)) js) rnd k")
  obtain ind where ind: "individual js c w = Inr ind" using individual_total by blast
  have "randomIndividuals n js w (population @ [ind]) rnd k1 = Inr (res, k')"
    using Suc.prems sh ind by simp
  from Suc.IH [OF this] show ?case by simp
qed

lemma createInitialPopulation_length:
  assumes "1 \<le> n" and "createInitialPopulation js n w initialSequence rnd k = Inr (res, k')"
  shows "length res = nat n"
proof (cases initialSequence)
  case None
  then have "randomIndividuals (nat (n - int (length ([]::Individual list)))) js w [] rnd k
               = Inr (res, k')"
    using assms(2) by (simp add: createInitialPopulation_def)
  from randomIndividuals_length [OF this] show ?thesis by simp
next
  case (Some c)
  obtain ind where ind: "individual js c w = Inr ind" using individual_total by blast
  have "randomIndividuals (nat (n - int (length [ind]))) js w [ind] rnd k = Inr (res, k')"
    using assms(2) Some ind by (simp add: createInitialPopulation_def)
  from randomIndividuals_length [OF this] show ?thesis using assms(1) by simp
qed

lemma reduceFittest_returns:
  "None \<notin> set rest \<Longrightarrow> \<exists>r. reduceFittest (Some b) rest = Inr (Some r)"
proof (induction rest arbitrary: b)
  case Nil
  then show ?case by simp
next
  case (Cons cur rest)
  then obtain c where c: "cur = Some c" by (cases cur) auto
  have "None \<notin> set rest" using Cons.prems by simp
  from Cons.IH [OF this] show ?case using c by simp
qed

lemma tournamentSelection_returns:
  assumes ne: "population \<noteq> []" and nn: "None \<notin> set population" and t: "1 \<le> tSize"
      and u: "unitRange rnd"
  shows "\<exists>ind. tournamentSelection population tSize rnd k = Inr (Some ind, k + nat tSize)"
proof -
  let ?t = "map (\<lambda>i. jsGet population (randomIndex (rnd (k + i)) (length population)))
                [0..<nat tSize]"
  have el: "\<And>i. jsGet population (randomIndex (rnd (k + i)) (length population)) \<in> set population"
  proof -
    fix i
    have "randomIndex (rnd (k + i)) (length population) < length population"
      using u ne by (intro randomIndex_less) (simp_all add: unitRange_def)
    then show "jsGet population (randomIndex (rnd (k + i)) (length population)) \<in> set population"
      by (simp add: jsGet_def)
  qed
  have sub: "set ?t \<subseteq> set population" using el by auto
  have "?t \<noteq> []" using t by simp
  then obtain first rest where fr: "?t = first # rest" by (cases ?t) auto
  have "first \<in> set population" "set rest \<subseteq> set population"
    using sub unfolding fr by simp_all
  then have fn: "first \<in> set population - {None}" and r: "None \<notin> set rest"
    using nn by blast+
  obtain b where b: "first = Some b" using fn by (cases first) simp_all
  from reduceFittest_returns [OF r, of b] obtain x where
    "reduceFittest first rest = Inr (Some x)" using b by auto
  then show ?thesis using fr by (simp add: tournamentSelection_def Let_def)
qed

lemma makeOffspring_returns:
  assumes v: "validIds js" and u: "unitRange rnd" and pp: "popPerm js population"
      and ne: "population \<noteq> []" and nn: "None \<notin> set population"
      and t: "1 \<le> tournamentSize config"
  shows "\<exists>ind k'. makeOffspring js config rate population rnd k = Inr (ind, k')"
proof -
  obtain p1 where t1: "tournamentSelection population (tournamentSize config) rnd k
                         = Inr (Some p1, k + nat (tournamentSize config))"
    using tournamentSelection_returns [OF ne nn t u] by blast
  let ?k1 = "k + nat (tournamentSize config)"
  obtain p2 where t2: "tournamentSelection population (tournamentSize config) rnd ?k1
                         = Inr (Some p2, ?k1 + nat (tournamentSize config))"
    using tournamentSelection_returns [OF ne nn t u] by blast
  let ?k2 = "?k1 + nat (tournamentSize config)"
  have r: "\<And>i. 0 \<le> rnd i" "\<And>i. rnd i < 1" using u by (simp_all add: unitRange_def)
  have m1: "mset (chromosome p1) = mset (idsOf js)"
    using tournamentSelection_mem [OF t1] pp by (simp add: popPerm_def)
  have "mset (chromosome p2) = mset (idsOf js)"
    using tournamentSelection_mem [OF t2] pp by (simp add: popPerm_def)
  then have m2: "mset (chromosome p2) = mset (chromosome p1)" using m1 by simp
  from orderCrossover_perm [OF perm_facts(1) [OF v m1] perm_facts(2) [OF v m1] m2
              perm_facts(3) [OF v m1] r(1) r(2) r(1) r(2), of "?k2 + 1" "?k2 + 2"]
  obtain child where ch: "orderCrossover (chromosome p1) (chromosome p2)
                              (rnd (?k2 + 1)) (rnd (?k2 + 2)) = Some child" by blast
  have "\<exists>f. \<forall>c. individual js c (tardinessWeight config) = Inr (f c)"
    using individual_total [of js _ "tardinessWeight config"] by metis
  then obtain f where f: "\<And>c. individual js c (tardinessWeight config) = Inr (f c)" by blast
  show ?thesis
    unfolding makeOffspring_def using t1 t2 ch by (auto simp: f Let_def)
qed

lemma offspringLoop_returns:
  assumes v: "validIds js" and u: "unitRange rnd" and pp: "popPerm js population"
      and ne: "population \<noteq> []" and nn: "None \<notin> set population"
      and t: "1 \<le> tournamentSize config"
  shows "None \<notin> set newPopulation \<Longrightarrow>
         \<exists>res k'. offspringLoop n js config rate population newPopulation rnd k = Inr (res, k')
            \<and> None \<notin> set res"
proof (induction n arbitrary: newPopulation k)
  case 0
  then show ?case by simp
next
  case (Suc n)
  obtain ind k1 where mk: "makeOffspring js config rate population rnd k = Inr (ind, k1)"
    using makeOffspring_returns [OF v u pp ne nn t] by blast
  have "None \<notin> set (newPopulation @ [Some ind])" using Suc.prems by simp
  from Suc.IH [OF this, of k1] show ?case using mk by simp
qed

lemma map_filter_id_Some: "None \<notin> set xs \<Longrightarrow> map Some (List.map_filter (\<lambda>x. x) xs) = xs"
proof (induction xs)
  case Nil
  then show ?case by (simp add: map_filter_simps)
next
  case (Cons a xs)
  then show ?case by (cases a) (simp_all add: map_filter_simps)
qed

lemma sortPopulation_full:
  assumes "None \<notin> set population"
  shows "length (sortPopulation population) = length population"
    and "None \<notin> set (sortPopulation population)"
proof -
  have f: "filter (\<lambda>x. x = None) population = []"
    using assms by (intro filter_False) metis
  have "length (List.map_filter (\<lambda>x. x) population) = length population"
    using arg_cong [OF map_filter_id_Some [OF assms], of length] by simp
  then show "length (sortPopulation population) = length population"
    by (simp add: sortPopulation_def f)
  show "None \<notin> set (sortPopulation population)"
    by (auto simp: sortPopulation_def f)
qed

lemma eliteCount_bounds:
  assumes "validConfig config"
  shows "1 \<le> eliteCount config" "eliteCount config \<le> populationSize config"
proof -
  show "1 \<le> eliteCount config" by (simp add: eliteCount_def)
  have ps: "1 \<le> populationSize config" and er: "elitismRate config \<le> 1"
    using assms by (simp_all add: validConfig_def)
  have "real_of_int (populationSize config) * elitismRate config
          \<le> real_of_int (populationSize config) * 1"
    using ps er by (intro mult_left_mono) simp_all
  then have "\<lfloor>real_of_int (populationSize config) * elitismRate config\<rfloor> \<le> populationSize config"
    by (simp add: floor_le_iff)
  then show "eliteCount config \<le> populationSize config" using ps by (simp add: eliteCount_def)
qed

lemma elites_take:
  "nat (eliteCount config) \<le> length population \<Longrightarrow>
   elites population config = take (nat (eliteCount config)) population"
  by (auto simp: elites_def jsGet_def list_eq_iff_nth_eq)

lemma nextGeneration_returns:
  assumes v: "validIds js" and u: "unitRange rnd" and c: "validConfig config"
      and pp: "popPerm js population" and f: "fullPopulation config population"
  shows "\<exists>res k'. nextGeneration js config rate population rnd k = Inr (res, k')
            \<and> fullPopulation config res"
proof -
  let ?sorted = "sortPopulation population"
  have ps: "1 \<le> populationSize config" and t: "1 \<le> tournamentSize config"
    using c by (simp_all add: validConfig_def)
  have nn: "None \<notin> set population" and len: "length population = nat (populationSize config)"
    using f by (simp_all add: fullPopulation_def)
  have sl: "length ?sorted = nat (populationSize config)" and sn: "None \<notin> set ?sorted"
    using sortPopulation_full [OF nn] len by simp_all
  have sne: "?sorted \<noteq> []" using sl ps by auto
  have spp: "popPerm js ?sorted" using pp by (simp add: popPerm_def sortPopulation_mem)
  have ec: "nat (eliteCount config) \<le> length ?sorted"
    using eliteCount_bounds [OF c] sl by simp
  have el: "elites ?sorted config = take (nat (eliteCount config)) ?sorted"
    by (rule elites_take [OF ec])
  have en: "None \<notin> set (elites ?sorted config)"
    using sn unfolding el by (auto dest: in_set_takeD)
  have "jsGet ?sorted 0 \<in> set ?sorted" using sne by (simp add: jsGet_def)
  then have "jsGet ?sorted 0 \<noteq> None" using sn by metis
  then obtain b where b: "jsGet ?sorted 0 = Some b" by blast
  let ?n = "nat (populationSize config - int (length (elites ?sorted config)))"
  from offspringLoop_returns [OF v u spp sne sn t en, of ?n rate k]
  obtain res k' where r: "offspringLoop ?n js config rate ?sorted (elites ?sorted config) rnd k
                            = Inr (res, k')" and rn: "None \<notin> set res" by blast
  have "length res = length (elites ?sorted config) + ?n"
    using offspringLoop_prefix [OF r] by simp
  moreover have "length (elites ?sorted config) = nat (eliteCount config)"
    by (simp add: elites_def)
  ultimately have "length res = nat (populationSize config)"
    using eliteCount_bounds [OF c] by simp
  moreover have "nextGeneration js config rate population rnd k = Inr (res, k')"
    using b r by (simp add: nextGeneration_def Let_def)
  ultimately show ?thesis using rn by (auto simp: fullPopulation_def)
qed

lemma populationAt_returns:
  assumes v: "validIds js" and u: "unitRange rnd" and c: "validConfig config"
      and i: "\<forall>c. initialSequence = Some c \<longrightarrow> mset c = mset (idsOf js)"
  shows "\<exists>res k'. populationAt g js config initialSequence rates rnd = Inr (res, k')
            \<and> fullPopulation config res \<and> popPerm js res"
proof (induction g)
  case 0
  obtain popn k where cr: "createInitialPopulation js (populationSize config)
     (tardinessWeight config) initialSequence rnd 0 = Inr (popn, k)"
    using createInitialPopulation_total by blast
  have ps: "1 \<le> populationSize config" using c by (simp add: validConfig_def)
  have len: "length popn = nat (populationSize config)"
    by (rule createInitialPopulation_length [OF ps cr])
  then have ne: "popn \<noteq> []" using ps by auto
  have "popPerm js (map Some popn)"
    using createInitialPopulation_perm [OF u i cr] by (auto simp: popPerm_def)
  moreover have "fullPopulation config (map Some popn)"
    using len by (auto simp: fullPopulation_def)
  ultimately show ?case using cr ne by simp
next
  case (Suc g)
  then obtain popn k where p: "populationAt g js config initialSequence rates rnd = Inr (popn, k)"
    and f: "fullPopulation config popn" and pp: "popPerm js popn" by blast
  from nextGeneration_returns [OF v u c pp f, of "rates g" k]
  obtain res k' where n: "nextGeneration js config (rates g) popn rnd k = Inr (res, k')"
    and f': "fullPopulation config res" by blast
  have "popPerm js res" using nextGeneration_perm [OF v u pp, of config "rates g" k] n by simp
  then show ?case using p n f' by simp
qed

section \<open>Fitness\<close>

text \<open>
  C5. For every job list, sequence and weight \<open>w\<close> (in particular for \<open>w\<close> in
  \<open>[0, 1]\<close>), \<open>evaluateFitness\<close> returns the makespan and the total tardiness of the
  Schedule that \<open>runSimulation\<close> returns on that job list and sequence, unscaled (both
  scale factors are 1), and \<open>fitness = (1 - w) * makespan + w * totalTardiness\<close>.
  The engine is a function of the job list and the sequence, and \<open>evaluateFitness\<close>
  calls it once.
\<close>

theorem fitness_weighted_sum:
  "\<exists>sch. runSimulation js sq0 = Inr sch \<and>
     evaluateFitness js sq0 w =
       Inr \<lparr>ev_fitness = (1 - w) * makespan sch + w * totalTardiness sch,
            ev_makespan = makespan sch, ev_totalTardiness = totalTardiness sch\<rparr>"
proof -
  obtain sch where "runSimulation js sq0 = Inr sch"
    using runSimulation_Inr [of js sq0] by blast
  then show ?thesis by (simp add: evaluateFitness_def Let_def)
qed

theorem fitness_weighted_sum_witness:
  "evaluateFitness [exJob 1 100 1 10 5] [Some 1] (1/4) =
     Inr \<lparr>ev_fitness = 80, ev_makespan = 105, ev_totalTardiness = 5\<rparr>"
  using fitness_weighted_sum [of "[exJob 1 100 1 10 5]" "[Some 1]" "1/4"]
  unfolding runSimulation_single_job by auto

section \<open>No input is rejected\<close>

text \<open>
  C8 (as amended). Neither the engine nor the optimizer validates its input: for every
  job list, every sequence (a permutation of the job ids or not) and every weight,
  population size and initial sequence, \<open>runSimulation\<close> returns a Schedule,
  \<open>evaluateFitness\<close> returns an evaluation and \<open>createInitialPopulation\<close> returns a
  population; none of them reports an error.
\<close>

theorem no_input_validation:
  "\<exists>sch ev population k'.
     runSimulation js sq0 = Inr sch \<and> evaluateFitness js sq0 w = Inr ev \<and>
     createInitialPopulation js n w initialSequence rnd k = Inr (population, k')"
  using runSimulation_Inr [of js sq0] evaluateFitness_total [of js sq0 w]
    createInitialPopulation_total [of js n w initialSequence rnd k]
  by blast

theorem no_input_validation_witness:
  "\<exists>sch ev population k'.
     runSimulation [] [Some 7, Some 7] = Inr sch \<and>
     evaluateFitness [] [Some 7, Some 7] (- 3) = Inr ev \<and>
     createInitialPopulation [] (- 5) (- 3) (Some [Some 7, Some 7]) exRnd 0
       = Inr (population, k')"
  using no_input_validation [of "[]" "[Some 7, Some 7]" "- 3" "- 5" "Some [Some 7, Some 7]" exRnd 0]
  by simp

text \<open>
  C8 (as stated) fails: the sequence 99, which is not a permutation of the job ids,
  is not rejected; the engine returns the empty Schedule.
\<close>

theorem invalid_input_accepted_counterexample:
  "runSimulation [exJob 1 100 1 10 5] [Some 99] =
     Inr \<lparr>jobs = [], makespan = 0, totalTardiness = 0, averageTardiness = 0,
          setupCount = 0, minorSetupCount = 0, majorSetupCount = 0, aoiSetupCount = 0,
          utilization_stage1 = 0, utilization_stage2 = 0\<rparr>"
  by code_simp

section \<open>Elitism\<close>

lemma sortPopulation_length: "length (sortPopulation population) = length population"
proof -
  have "length (List.map_filter (\<lambda>x. x) xs) + length (filter (\<lambda>x. x = None) xs) = length xs"
    for xs :: "Individual option list"
  proof (induction xs)
    case Nil
    then show ?case by (simp add: map_filter_simps)
  next
    case (Cons a xs)
    then show ?case by (cases a) (simp_all add: map_filter_simps)
  qed
  then show ?thesis by (simp add: sortPopulation_def)
qed

lemma sortPopulation_Some:
  "sortPopulation (map Some inds) = map Some (sort_key fitness inds)"
proof -
  have "List.map_filter (\<lambda>x. x) (map Some inds) = inds"
    by (induction inds) (simp_all add: map_filter_simps)
  moreover have "filter (\<lambda>x. x = None) (map Some inds) = []"
    by (induction inds) simp_all
  ultimately show ?thesis by (simp add: sortPopulation_def)
qed

lemma nextGeneration_length:
  assumes "nextGeneration js config rate population rnd k = Inr (res, k')"
  shows "length res = nat (eliteCount config) + nat (populationSize config - eliteCount config)"
proof -
  let ?sorted = "sortPopulation population"
  obtain b where "jsGet ?sorted 0 = Some b"
    using assms by (cases "jsGet ?sorted 0") (simp_all add: nextGeneration_def)
  then have "offspringLoop (nat (populationSize config - int (length (elites ?sorted config))))
                js config rate ?sorted (elites ?sorted config) rnd k = Inr (res, k')"
    using assms by (simp add: nextGeneration_def Let_def)
  from offspringLoop_prefix [OF this]
  have "length res = length (elites ?sorted config)
          + nat (populationSize config - int (length (elites ?sorted config)))" by simp
  moreover have "length (elites ?sorted config) = nat (eliteCount config)"
    by (simp add: elites_def)
  moreover have "1 \<le> eliteCount config" by (simp add: eliteCount_def)
  ultimately show ?thesis by simp
qed

text \<open>
  C6 (as amended). The number of elites is \<open>max 1 (floor (populationSize * elitismRate))\<close>,
  at least 1. Whenever \<open>nextGeneration\<close> returns, the new population begins with the
  slots \<open>0 .. eliteCount - 1\<close> of the population sorted by fitness, unchanged (when
  the population has at least \<open>eliteCount\<close> slots, these are its first \<open>eliteCount\<close>
  individuals), followed by \<open>populationSize - eliteCount\<close> offspring. The sort of a
  population without empty slots is the stable sort by ascending fitness.
\<close>

theorem elitism_count_floor:
  "eliteCount config = max 1 \<lfloor>real_of_int (populationSize config) * elitismRate config\<rfloor> \<and>
   1 \<le> eliteCount config \<and>
   (\<forall>res k'. nextGeneration js config rate population rnd k = Inr (res, k') \<longrightarrow>
      take (nat (eliteCount config)) res
        = map (jsGet (sortPopulation population)) [0..<nat (eliteCount config)] \<and>
      (nat (eliteCount config) \<le> length population \<longrightarrow>
         take (nat (eliteCount config)) res
           = take (nat (eliteCount config)) (sortPopulation population)) \<and>
      length res = nat (eliteCount config) + nat (populationSize config - eliteCount config)) \<and>
   sortPopulation (map Some inds) = map Some (sort_key fitness inds)"
proof (intro conjI allI impI)
  show "eliteCount config = max 1 \<lfloor>real_of_int (populationSize config) * elitismRate config\<rfloor>"
    by (simp add: eliteCount_def)
  show "1 \<le> eliteCount config" by (simp add: eliteCount_def)
  show "sortPopulation (map Some inds) = map Some (sort_key fitness inds)"
    by (rule sortPopulation_Some)
next
  fix res k'
  assume n: "nextGeneration js config rate population rnd k = Inr (res, k')"
  show e: "take (nat (eliteCount config)) res
        = map (jsGet (sortPopulation population)) [0..<nat (eliteCount config)]"
    using nextGeneration_elites [OF n] by (simp add: elites_def)
  show "length res = nat (eliteCount config) + nat (populationSize config - eliteCount config)"
    by (rule nextGeneration_length [OF n])
  assume "nat (eliteCount config) \<le> length population"
  then have "nat (eliteCount config) \<le> length (sortPopulation population)"
    by (simp add: sortPopulation_length)
  from elites_take [OF this] show "take (nat (eliteCount config)) res
           = take (nat (eliteCount config)) (sortPopulation population)"
    using nextGeneration_elites [OF n] by simp
qed

lemma nextGeneration_example:
  "nextGeneration exJobs exConfig (1/5) exPopulation exRnd 8 =
     Inr ([Some \<lparr>chromosome = [Some 2, Some 3, Some 1], fitness = 150,
                 i_makespan = 150, i_totalTardiness = 150\<rparr>,
           Some \<lparr>chromosome = [Some 2, Some 1, Some 3], fitness = 160,
                 i_makespan = 180, i_totalTardiness = 140\<rparr>,
           Some \<lparr>chromosome = [Some 3, Some 1, Some 2], fitness = 150,
                 i_makespan = 150, i_totalTardiness = 150\<rparr>,
           Some \<lparr>chromosome = [Some 2, Some 3, Some 1], fitness = 150,
                 i_makespan = 150, i_totalTardiness = 150\<rparr>], 30)"
  by code_simp

lemma eliteCount_example: "eliteCount exConfig = 1"
  by code_simp

theorem elitism_count_floor_witness:
  "\<exists>res k'. nextGeneration exJobs exConfig (1/5) exPopulation exRnd 8 = Inr (res, k') \<and>
     eliteCount exConfig = 1 \<and> length res = 4 \<and>
     take 1 res = take 1 (sortPopulation exPopulation) \<and>
     take 1 res = [Some \<lparr>chromosome = [Some 2, Some 3, Some 1], fitness = 150,
                         i_makespan = 150, i_totalTardiness = 150\<rparr>]"
proof -
  have l: "nat (eliteCount exConfig) \<le> length exPopulation"
    by (simp add: eliteCount_example exPopulation_def)
  obtain res k' where n: "nextGeneration exJobs exConfig (1/5) exPopulation exRnd 8 = Inr (res, k')"
    and len: "length res = 4"
    and r: "take 1 res = [Some \<lparr>chromosome = [Some 2, Some 3, Some 1], fitness = 150,
                         i_makespan = 150, i_totalTardiness = 150\<rparr>]"
    using nextGeneration_example by simp
  have "take (nat (eliteCount exConfig)) res
          = take (nat (eliteCount exConfig)) (sortPopulation exPopulation)"
    using elitism_count_floor [of exConfig exJobs "1/5" exPopulation exRnd 8] n l by blast
  then have "take 1 res = take 1 (sortPopulation exPopulation)"
    by (simp add: eliteCount_example)
  then show ?thesis using n len r eliteCount_example by blast
qed

text \<open>
  C6 (as stated) fails: with a population of 22 and an elitism rate of 1/4 the code
  copies \<open>floor 5.5 = 5\<close> individuals, not \<open>ceil 5.5 = 6\<close>.
\<close>

theorem elitism_ceiling_counterexample:
  "eliteCount (exConfig\<lparr>populationSize := 22\<rparr>) = 5 \<and>
   \<lceil>real_of_int (populationSize (exConfig\<lparr>populationSize := 22\<rparr>))
      * elitismRate (exConfig\<lparr>populationSize := 22\<rparr>)\<rceil> = 6"
  by code_simp

section \<open>Permutations\<close>

lemma unitRange_exRnd: "unitRange exRnd"
proof -
  have "real ((k * 7 + 3) mod 10) < 10" for k :: nat
    using mod_less_divisor [of 10 "k * 7 + 3"] by (simp del: mod_less_divisor)
  then show ?thesis by (simp add: unitRange_def exRnd_def)
qed

text \<open>
  Away from the empty chromosome and the marker \<open>-1\<close> the operators keep the ids.
  Let the parents be non-empty permutations of the same set of ids,
  none of which is the marker \<open>-1\<close>, and let every random number be in \<open>[0, 1)\<close>. Then
  \<open>orderCrossover\<close> returns, and its child is a permutation of that set;
  \<open>swapMutation\<close> and \<open>insertMutation\<close> map a non-empty chromosome to a chromosome
  with the same ids, each as many times as before. Hence, for a non-empty job list
  with distinct ids other than \<open>-1\<close> (and an initial sequence, if one is given, that
  is a permutation of the job ids), no call of \<open>orderCrossover\<close> runs forever, the
  chromosome of every individual of every generation is a permutation of the job ids,
  and with a population size and a tournament size of at least 1 and an elitism rate
  of at most 1 every generation is reached and has \<open>populationSize\<close> individuals.
\<close>

theorem permutation_preservation:
  "(p1 \<noteq> [] \<and> distinct p1 \<and> mset p2 = mset p1 \<and> Some (- 1) \<notin> set p1 \<and>
    0 \<le> r1 \<and> r1 < 1 \<and> 0 \<le> r2 \<and> r2 < 1 \<longrightarrow>
      (\<exists>child. orderCrossover p1 p2 r1 r2 = Some child \<and>
         mset child = mset p1 \<and> distinct child)) \<and>
   (c \<noteq> [] \<and> 0 \<le> r1 \<and> r1 < 1 \<and> 0 \<le> r2 \<and> r2 < 1 \<longrightarrow>
      mset (swapMutation c r1 r2) = mset c \<and> mset (insertMutation c r1 r2) = mset c) \<and>
   (validIds js \<and> unitRange rnd \<and>
    (\<forall>c. initialSequence = Some c \<longrightarrow> mset c = mset (idsOf js)) \<longrightarrow>
      populationAt g js config initialSequence rates rnd \<noteq> Inl Diverges \<and>
      (\<forall>population k ind.
          populationAt g js config initialSequence rates rnd = Inr (population, k) \<and>
          Some ind \<in> set population \<longrightarrow>
            mset (chromosome ind) = mset (idsOf js) \<and> distinct (chromosome ind)) \<and>
      (validConfig config \<longrightarrow>
         (\<exists>population k.
            populationAt g js config initialSequence rates rnd = Inr (population, k) \<and>
            fullPopulation config population)))"
proof (intro conjI impI)
  assume h: "p1 \<noteq> [] \<and> distinct p1 \<and> mset p2 = mset p1 \<and> Some (- 1) \<notin> set p1 \<and>
    0 \<le> r1 \<and> r1 < 1 \<and> 0 \<le> r2 \<and> r2 < 1"
  then obtain child where ch: "orderCrossover p1 p2 r1 r2 = Some child" "mset child = mset p1"
    using orderCrossover_perm [of p1 p2 r1 r2] by blast
  have "distinct child" using mset_eq_imp_distinct_iff [OF ch(2)] h by simp
  then show "\<exists>child. orderCrossover p1 p2 r1 r2 = Some child \<and>
         mset child = mset p1 \<and> distinct child" using ch by blast
next
  assume h: "c \<noteq> [] \<and> 0 \<le> r1 \<and> r1 < 1 \<and> 0 \<le> r2 \<and> r2 < 1"
  then show "mset (swapMutation c r1 r2) = mset c" by (simp add: swapMutation_mset)
  from h show "mset (insertMutation c r1 r2) = mset c" by (simp add: insertMutation_mset)
next
  assume h: "validIds js \<and> unitRange rnd \<and>
    (\<forall>c. initialSequence = Some c \<longrightarrow> mset c = mset (idsOf js))"
  then have v: "validIds js" and u: "unitRange rnd"
    and i: "\<forall>c. initialSequence = Some c \<longrightarrow> mset c = mset (idsOf js)" by simp_all
  note p = populationAt_perm [OF v u i, of g config rates]
  show "populationAt g js config initialSequence rates rnd \<noteq> Inl Diverges" using p by simp
  show "\<forall>population k ind.
          populationAt g js config initialSequence rates rnd = Inr (population, k) \<and>
          Some ind \<in> set population \<longrightarrow>
            mset (chromosome ind) = mset (idsOf js) \<and> distinct (chromosome ind)"
  proof (intro allI impI)
    fix population k ind
    assume a: "populationAt g js config initialSequence rates rnd = Inr (population, k) \<and>
          Some ind \<in> set population"
    then have m: "mset (chromosome ind) = mset (idsOf js)" using p by (simp add: popPerm_def)
    then show "mset (chromosome ind) = mset (idsOf js) \<and> distinct (chromosome ind)"
      using perm_facts(2) [OF v m] by simp
  qed
  assume c: "validConfig config"
  from populationAt_returns [OF v u c i, of g rates]
  show "\<exists>population k.
            populationAt g js config initialSequence rates rnd = Inr (population, k) \<and>
            fullPopulation config population" by blast
qed

theorem permutation_preservation_witness:
  "(\<exists>child. orderCrossover [Some 1, Some 2, Some 3, Some 4, Some 5]
                [Some 5, Some 4, Some 3, Some 2, Some 1] (3/10) (1/2) = Some child \<and>
      mset child = mset [Some 1, Some 2, Some 3, Some 4, Some 5] \<and> distinct child) \<and>
   mset (swapMutation [Some 1, Some 2, Some 3] (3/10) (1/2)) = mset [Some 1, Some 2, Some 3] \<and>
   mset (insertMutation [Some 1, Some 2, Some 3] (3/10) (1/2)) = mset [Some 1, Some 2, Some 3] \<and>
   (\<exists>population k.
      populationAt 2 exJobs exConfig None (\<lambda>g. 1/5) exRnd = Inr (population, k) \<and>
      fullPopulation exConfig population \<and> popPerm exJobs population)"
proof -
  note t = permutation_preservation
    [of "[Some 1, Some 2, Some 3, Some 4, Some 5]" "[Some 5, Some 4, Some 3, Some 2, Some 1]"
        "3/10" "1/2" "[Some 1, Some 2, Some 3]" exJobs exRnd None 2 exConfig "\<lambda>g. 1/5"]
  have v: "validIds exJobs" by (simp add: validIds_def exJobs_def exJob_def)
  have c: "validConfig exConfig" by (simp add: validConfig_def exConfig_def)
  have m: "mset [Some 5, Some 4, Some 3, Some 2, Some (1::int)]
             = mset [Some 1, Some 2, Some 3, Some 4, Some 5]" by (simp add: add_mset_commute)
  from t m have 1: "\<exists>child. orderCrossover [Some 1, Some 2, Some 3, Some 4, Some 5]
                [Some 5, Some 4, Some 3, Some 2, Some 1] (3/10) (1/2) = Some child \<and>
      mset child = mset [Some 1, Some 2, Some 3, Some 4, Some 5] \<and> distinct child"
    by simp
  from t have 2: "mset (swapMutation [Some 1, Some 2, Some 3] (3/10) (1/2))
                    = mset [Some 1, Some 2, Some 3]"
    and 3: "mset (insertMutation [Some 1, Some 2, Some 3] (3/10) (1/2))
                    = mset [Some 1, Some 2, Some 3]" by simp_all
  from t v c unitRange_exRnd obtain population k where
    p: "populationAt 2 exJobs exConfig None (\<lambda>g. 1/5) exRnd = Inr (population, k)"
    and f: "fullPopulation exConfig population"
    and a: "\<forall>population k ind.
          populationAt 2 exJobs exConfig None (\<lambda>g. 1/5) exRnd = Inr (population, k) \<and>
          Some ind \<in> set population \<longrightarrow>
            mset (chromosome ind) = mset (idsOf exJobs) \<and> distinct (chromosome ind)"
    by auto
  have "popPerm exJobs population" using a p by (simp add: popPerm_def)
  then show ?thesis using 1 2 3 p f by blast
qed

lemma fillFromParent2_marker_aux:
  "fillFromParent2 p2 sz ch ci pj = Some r \<Longrightarrow>
   \<not> (p2 = [Some (- 1)] \<and> sz = 1 \<and> ch = [Some (- 1)] \<and> pj = 0)"
proof (rule fillFromParent2.raw_induct
    [where P = "\<lambda>p2 sz ch ci pj r. \<not> (p2 = [Some (- 1)] \<and> sz = 1 \<and> ch = [Some (- 1)] \<and> pj = 0)"])
  show "fillFromParent2 p2 sz ch ci pj = Some r \<Longrightarrow> fillFromParent2 p2 sz ch ci pj = Some r" .
next
  fix f :: "int option list \<Rightarrow> nat \<Rightarrow> int option list \<Rightarrow> nat \<Rightarrow> nat \<Rightarrow> int option list option"
  fix parent2 sz child childIndex parent2Index y
  assume ih: "\<And>parent2 sz child childIndex parent2Index y.
          f parent2 sz child childIndex parent2Index = Some y \<Longrightarrow>
          \<not> (parent2 = [Some (- 1)] \<and> sz = 1 \<and> child = [Some (- 1)] \<and> parent2Index = 0)"
    and eq: "(if Some (- 1) \<in> set child
      then if jsGet parent2 parent2Index \<notin> set child
           then f parent2 sz
                 (jsSet child childIndex (jsGet parent2 parent2Index))
                 ((childIndex + 1) mod sz) ((parent2Index + 1) mod sz)
           else f parent2 sz child childIndex
                 ((parent2Index + 1) mod sz)
      else Some child) = Some y"
  show "\<not> (parent2 = [Some (- 1)] \<and> sz = 1 \<and> child = [Some (- 1)] \<and> parent2Index = 0)"
  proof
    assume a: "parent2 = [Some (- 1)] \<and> sz = 1 \<and> child = [Some (- 1)] \<and> parent2Index = 0"
    then have "f [Some (- 1)] 1 [Some (- 1)] childIndex 0 = Some y"
      using eq by (simp add: jsGet_def)
    from ih [OF this] show False by simp
  qed
qed

lemma fillFromParent2_marker:
  "fillFromParent2 [Some (- 1)] 1 [Some (- 1)] 0 0 = None"
proof (cases "fillFromParent2 [Some (- 1)] 1 [Some (- 1)] 0 0")
  case None
  then show ?thesis .
next
  case (Some y)
  from fillFromParent2_marker_aux [OF this] show ?thesis by simp
qed

lemma empty_job_list_example:
  "populationAt 1 [] exConfig None (\<lambda>g. 1/5) exRnd =
     Inr ([Some \<lparr>chromosome = [], fitness = 0, i_makespan = 0, i_totalTardiness = 0\<rparr>,
           Some \<lparr>chromosome = [None], fitness = 0, i_makespan = 0, i_totalTardiness = 0\<rparr>,
           Some \<lparr>chromosome = [None], fitness = 0, i_makespan = 0, i_totalTardiness = 0\<rparr>,
           Some \<lparr>chromosome = [None], fitness = 0, i_makespan = 0, i_totalTardiness = 0\<rparr>],
          24)"
  by code_simp

text \<open>
  C7. The operators do not keep every permutation. On the empty chromosome, the only
  permutation of the empty set of ids, \<open>orderCrossover\<close> copies the segment
  \<open>0..0\<close> into a child of length 0, and \<open>swapMutation\<close> and \<open>insertMutation\<close>
  write slot 0: each returns a chromosome with one slot, \<open>undefined\<close>. When the fill
  marker \<open>-1\<close> of \<open>orderCrossover\<close> is a job id, the loop
  \<open>while (child.includes(-1))\<close> never ends. With the empty job list the first
  generation after the initial one holds individuals whose chromosome is
  \<open>[undefined]\<close>, which is not a permutation of the (no) job ids.
\<close>

theorem operators_lose_permutation:
  "orderCrossover [] [] (1/2) (1/2) = Some [None] \<and>
   swapMutation [] (1/2) (1/2) = [None] \<and>
   insertMutation [] (1/2) (1/2) = [None] \<and>
   orderCrossover [Some (- 1)] [Some (- 1)] (1/2) (1/2) = None \<and>
   populationAt 1 [] exConfig None (\<lambda>g. 1/5) exRnd =
     Inr ([Some \<lparr>chromosome = [], fitness = 0, i_makespan = 0, i_totalTardiness = 0\<rparr>,
           Some \<lparr>chromosome = [None], fitness = 0, i_makespan = 0, i_totalTardiness = 0\<rparr>,
           Some \<lparr>chromosome = [None], fitness = 0, i_makespan = 0, i_totalTardiness = 0\<rparr>,
           Some \<lparr>chromosome = [None], fitness = 0, i_makespan = 0, i_totalTardiness = 0\<rparr>],
          24)"
proof -
  have "orderCrossover [] [] (1/2) (1/2) = Some [None]" by code_simp
  moreover have "swapMutation [] (1/2) (1/2) = [None]" by code_simp
  moreover have "insertMutation [] (1/2) (1/2) = [None]" by code_simp
  moreover have "orderCrossover [Some (- 1)] [Some (- 1)] (1/2) (1/2) = None"
    using fillFromParent2_marker
    by (simp add: orderCrossover_def orderCrossoverAt_def randomIndex_def copySegment_def
                  jsSet_def jsGet_def Let_def)
  ultimately show ?thesis using empty_job_list_example by simp
qed

end
